theory Spec2Isabelle
  imports Main "HOL-Library.Multiset" "HOL-Library.AList" "HOL-Library.Char_ord"
    "HOL-Library.List_Lexorder"
begin

section \<open>Experiment reference garbage collection: dvc/repo/experiments/gc.py\<close>

text \<open>
  The function \<^verbatim>\<open>gc\<close> works on a repository object: the revisions the brancher
  yields, the revision of HEAD, the reference store of the SCM, the experiment references
  \<^verbatim>\<open>exp_refs\<close> enumerates, and the stash of queued experiments. None of these classes is
  part of the two source files, so the repository is a record of what \<^verbatim>\<open>gc\<close> reads
  and writes.

  A reference holds a revision, or (a symbolic reference) the name of another reference.
\<close>

datatype ref_value = Sha string | Symbolic string

text \<open>\<^verbatim>\<open>ExpRefInfo\<close>: \<^verbatim>\<open>ref_str\<close> is what \<^verbatim>\<open>str(ref_info)\<close> returns.\<close>

record ref_info =
  baseline_sha :: string
  ref_str :: string

text \<open>\<^verbatim>\<open>ExpStashEntry\<close>: the position in the stash and the baseline revision.\<close>

record stash_entry =
  index :: nat
  baseline_rev :: string

record repo =
  brancher :: "bool \<Rightarrow> bool \<Rightarrow> bool \<Rightarrow> string list"
  head_rev :: string
  refs :: "string \<rightharpoonup> ref_value"
  exp_refs :: "ref_info list"
  stash_revs :: "(string \<times> stash_entry) list"
  stash :: "string list"

text \<open>The three singleton references of the running experiment (constants of
  \<^verbatim>\<open>experiments/base.py\<close>).\<close>

definition EXEC_BRANCH :: string where
  "EXEC_BRANCH = ''refs/exps/exec/EXEC_BRANCH''"

definition EXEC_APPLY :: string where
  "EXEC_APPLY = ''refs/exps/exec/EXEC_APPLY''"

definition EXEC_CHECKPOINT :: string where
  "EXEC_CHECKPOINT = ''refs/exps/exec/EXEC_CHECKPOINT''"

text \<open>
  \<^verbatim>\<open>scm.get_ref(name, follow)\<close>: the content of the reference, \<^verbatim>\<open>None\<close> when there
  is none. With \<^verbatim>\<open>follow=False\<close> a symbolic reference gives the name it holds; with
  \<^verbatim>\<open>follow=True\<close> (the default) it gives the revision of the reference it names.
\<close>

definition get_ref :: "repo \<Rightarrow> string \<Rightarrow> bool \<Rightarrow> string option" where
  "get_ref r n follow =
     (case refs r n of
        None \<Rightarrow> None
      | Some (Sha h) \<Rightarrow> Some h
      | Some (Symbolic t) \<Rightarrow>
          (if follow
           then (case refs r t of Some (Sha h) \<Rightarrow> Some h | _ \<Rightarrow> None)
           else Some t))"

text \<open>\<^verbatim>\<open>scm.remove_ref(name)\<close> deletes the reference; a missing one is no error.\<close>

definition remove_ref :: "string \<Rightarrow> repo \<Rightarrow> repo" where
  "remove_ref n r = r\<lparr>refs := (refs r)(n := None)\<rparr>"

text \<open>\<^verbatim>\<open>stash.drop(index)\<close> deletes the entry at that position; a position beyond the
  stash is an error (\<open>None\<close>).\<close>

definition stash_drop :: "nat \<Rightarrow> string list \<Rightarrow> string list option" where
  "stash_drop i xs = (if i < length xs then Some (take i xs @ drop (Suc i) xs) else None)"

text \<open>Python's truth value of an optional string: \<^verbatim>\<open>None\<close> and \<^verbatim>\<open>""\<close> are false.\<close>

fun truthy :: "string option \<Rightarrow> bool" where
  "truthy None = False"
| "truthy (Some s) = (s \<noteq> [])"

text \<open>
  \<^verbatim>\<open>keep_revs = set(repo.brancher(...))\<close>, and
  \<^verbatim>\<open>if workspace: keep_revs.add(repo.scm.get_rev())\<close>.
\<close>

definition keep_revs :: "repo \<Rightarrow> bool \<Rightarrow> bool \<Rightarrow> bool \<Rightarrow> bool \<Rightarrow> string set" where
  "keep_revs r all_branches all_tags all_commits workspace =
     set (brancher r all_branches all_tags all_commits)
       \<union> (if workspace then {head_rev r} else {})"

text \<open>
  The body of \<^verbatim>\<open>for ref_info in exp_refs(repo.scm)\<close>. The values \<open>exec_branch\<close>,
  \<open>exec_apply\<close> and \<open>exec_checkpoint\<close> were read once before the loop; \<open>ref\<close> is read
  from the store as it is in this iteration.
\<close>

definition gc_ref :: "string set \<Rightarrow> string option \<Rightarrow> string option \<Rightarrow> string option \<Rightarrow>
    ref_info \<Rightarrow> nat \<times> repo \<Rightarrow> nat \<times> repo" where
  "gc_ref keep exec_branch exec_apply exec_checkpoint ri st =
     (case st of (removed, r) \<Rightarrow>
        if baseline_sha ri \<notin> keep then
          let ref = get_ref r (ref_str ri) True;
              r1 = (if truthy exec_branch \<and> ref_str ri \<noteq> []
                    then remove_ref EXEC_BRANCH r else r);
              r2 = (if truthy exec_apply \<and> exec_apply = ref
                    then remove_ref EXEC_APPLY r1 else r1);
              r3 = (if truthy exec_checkpoint \<and> exec_checkpoint = ref
                    then remove_ref EXEC_CHECKPOINT r2 else r2)
          in (removed + 1, remove_ref (ref_str ri) r3)
        else (removed, r))"

text \<open>\<^verbatim>\<open>delete_stashes\<close>: the positions of the queued entries to drop.\<close>

definition delete_stashes :: "string set \<Rightarrow> bool \<Rightarrow> (string \<times> stash_entry) list \<Rightarrow> nat list" where
  "delete_stashes keep queued items =
     map (\<lambda>p. index (snd p))
       (filter (\<lambda>p. \<not> queued \<or> baseline_rev (snd p) \<notin> keep) items)"

text \<open>\<^verbatim>\<open>for index in sorted(delete_stashes, reverse=True): stash.drop(index)\<close>\<close>

fun drop_all :: "nat list \<Rightarrow> string list \<Rightarrow> string list option" where
  "drop_all [] xs = Some xs"
| "drop_all (i # is) xs =
     (case stash_drop i xs of None \<Rightarrow> None | Some ys \<Rightarrow> drop_all is ys)"

text \<open>The result is the number returned and the repository afterwards; \<open>None\<close> when
  a \<^verbatim>\<open>stash.drop\<close> failed.\<close>

definition gc :: "repo \<Rightarrow> bool \<Rightarrow> bool \<Rightarrow> bool \<Rightarrow> bool \<Rightarrow> bool \<Rightarrow> (nat \<times> repo) option" where
  "gc r all_branches all_tags all_commits workspace queued =
     (let keep = keep_revs r all_branches all_tags all_commits workspace in
      if keep = {} then Some (0, r)
      else
        let exec_branch = get_ref r EXEC_BRANCH False;
            exec_apply = get_ref r EXEC_APPLY True;
            exec_checkpoint = get_ref r EXEC_CHECKPOINT True;
            st = fold (gc_ref keep exec_branch exec_apply exec_checkpoint) (exp_refs r) (0, r);
            ds = delete_stashes keep queued (stash_revs (snd st))
        in (case drop_all (rev (sort ds)) (stash (snd st)) of
              None \<Rightarrow> None
            | Some s' \<Rightarrow> Some (fst st + length ds, (snd st)\<lparr>stash := s'\<rparr>)))"


text \<open>The entries of a list at the positions outside \<open>D\<close>, in their order.\<close>

definition keep_at :: "nat set \<Rightarrow> 'a list \<Rightarrow> 'a list" where
  "keep_at D xs = map (\<lambda>i. xs ! i) (filter (\<lambda>i. i \<notin> D) [0..<length xs])"

text \<open>
  A repository for the scenario of the specification: the branches give \<open>rev1\<close>;
  experiment \<open>exp1\<close> has baseline \<open>rev1\<close> and experiment \<open>exp2\<close> has baseline
  \<open>rev2\<close>; one queued entry has baseline \<open>rev2\<close>. The apply pointer holds the revision
  of \<open>exp2\<close>, the execution branch is the symbolic name of \<open>exp1\<close>.
\<close>

definition gc_scenario :: repo where
  "gc_scenario =
     \<lparr> brancher = (\<lambda>all_branches all_tags all_commits. if all_branches then [''rev1''] else []),
       head_rev = ''rev1'',
       refs = [''refs/exps/re/v1/exp1'' \<mapsto> Sha ''c1'',
               ''refs/exps/re/v2/exp2'' \<mapsto> Sha ''c2'',
               EXEC_APPLY \<mapsto> Sha ''c2'',
               EXEC_BRANCH \<mapsto> Symbolic ''refs/exps/re/v1/exp1''],
       exp_refs = [\<lparr> baseline_sha = ''rev1'', ref_str = ''refs/exps/re/v1/exp1'' \<rparr>,
                   \<lparr> baseline_sha = ''rev2'', ref_str = ''refs/exps/re/v2/exp2'' \<rparr>],
       stash_revs = [(''s0'', \<lparr> index = 0, baseline_rev = ''rev2'' \<rparr>)],
       stash = [''s0''] \<rparr>"

text \<open>The same repository with a second queued entry, whose baseline is \<open>rev1\<close>.\<close>

definition gc_scenario_queue :: repo where
  "gc_scenario_queue =
     gc_scenario
       \<lparr> stash_revs := [(''s0'', \<lparr> index = 0, baseline_rev = ''rev2'' \<rparr>),
                        (''s1'', \<lparr> index = 1, baseline_rev = ''rev1'' \<rparr>)],
         stash := [''s0'', ''s1''] \<rparr>"


section \<open>Trees: dvc/tree/base.py\<close>

subsection \<open>Paths, hashes and errors\<close>

text \<open>
  A path info (\<^verbatim>\<open>PathInfo\<close>, \<^verbatim>\<open>URLInfo\<close>) is a scheme and the sequence of its path
  segments. \<^verbatim>\<open>name\<close> is the last segment, \<^verbatim>\<open>parent\<close> drops it, \<^verbatim>\<open>/\<close> appends
  segments, and \<^verbatim>\<open>relative_to\<close> raises \<^verbatim>\<open>ValueError\<close> for a path that does not lie
  under the other one.
\<close>

record path_info =
  pscheme :: string
  parts :: "string list"

datatype error =
    RemoteActionNotImplemented string string
  | NotImplementedError
  | AssertionError
  | AttributeError
  | FileNotFoundError
  | ValueError
  | KeyError
  | DvcIgnoreInCollectedDirError path_info
  | TransferError string

definition name :: "path_info \<Rightarrow> string" where
  "name p = (if parts p = [] then [] else last (parts p))"

definition parent :: "path_info \<Rightarrow> path_info" where
  "parent p = p\<lparr>parts := butlast (parts p)\<rparr>"

definition join :: "path_info \<Rightarrow> string list \<Rightarrow> path_info" where
  "join p segs = p\<lparr>parts := parts p @ segs\<rparr>"

definition relative_to :: "path_info \<Rightarrow> path_info \<Rightarrow> error + string list" where
  "relative_to p root =
     (if pscheme p = pscheme root \<and> take (length (parts root)) (parts p) = parts root
      then Inr (drop (length (parts root)) (parts p))
      else Inl ValueError)"

text \<open>
  \<^verbatim>\<open>HashInfo\<close>: the name of the algorithm, the value and the optional size. A hash
  info is true when its value is not empty, and it is a directory hash when its value
  ends with the suffix \<^verbatim>\<open>.dir\<close> (\<^verbatim>\<open>is_dir_hash\<close> of the tree does the same on the
  bare value).
\<close>

record hash_info =
  hi_name :: string
  hi_value :: string
  hi_size :: "int option"

definition CHECKSUM_DIR_SUFFIX :: string where
  "CHECKSUM_DIR_SUFFIX = ''.dir''"

definition endswith :: "string \<Rightarrow> string \<Rightarrow> bool" where
  "endswith s suffix =
     (length suffix \<le> length s \<and> drop (length s - length suffix) s = suffix)"

definition is_dir_hash :: "string \<Rightarrow> bool" where
  "is_dir_hash hash = (if hash = [] then False else endswith hash CHECKSUM_DIR_SUFFIX)"

definition hi_isdir :: "hash_info \<Rightarrow> bool" where
  "hi_isdir h = is_dir_hash (hi_value h)"

text \<open>The truth value of an optional hash info, as \<^verbatim>\<open>if hash_info\<close> tests it.\<close>

fun hi_true :: "hash_info option \<Rightarrow> bool" where
  "hi_true None = False"
| "hi_true (Some h) = (hi_value h \<noteq> [])"

definition DVCIGNORE_FILE :: string where
  "DVCIGNORE_FILE = ''.dvcignore''"

subsection \<open>The tree and the world it works on\<close>

text \<open>
  An entry of a detailed listing (\<^verbatim>\<open>ls(..., detail=True)\<close>): the path of the file, the
  checksum when the entry has one, and the size when it has one.
\<close>

record detail =
  d_name :: "string list"
  d_checksum :: "string option"
  d_size :: "int option"

text \<open>
  \<^verbatim>\<open>BaseTree\<close> leaves its primitives to the subclasses (\<^verbatim>\<open>exists\<close>,
  \<^verbatim>\<open>walk_files\<close>, \<^verbatim>\<open>get_file_hash\<close>, \<^verbatim>\<open>_download\<close>, ...); they are the fields of the
  tree, functions of the storage \<open>'fs\<close> of the backend. \<open>download_prim\<close> is the method
  \<^verbatim>\<open>_download\<close>, \<open>None\<close> for a class that has no such attribute; it reads the storage
  and writes local files. \<open>cache_path_info\<close> is the root of \<^verbatim>\<open>self.cache.tree\<close>.

  Modelled from the spec: the manifest persistence of the local cache
  (\<^verbatim>\<open>repo.cache.local.save_dir_info\<close>) is not in these files. It "canonically serializes
  the manifest, computes the manifest's own content hash under the same algorithm, persists
  the serialized manifest addressed by that hash": \<open>manifest_digest\<close> is that content
  hash, \<open>local_checksum\<close> the name of the algorithm and \<open>local_cache_path_info\<close> the root
  of the local cache.
\<close>

record 'fs tree =
  scheme :: string
  PARAM_CHECKSUM :: "string option"
  DETAIL_FIELDS :: "string set"
  jobs :: int
  cache_path_info :: path_info
  local_cache_path_info :: path_info
  local_checksum :: string
  manifest_digest :: "(string list \<times> hash_info) list \<Rightarrow> string"
  exists :: "'fs \<Rightarrow> path_info \<Rightarrow> bool"
  isdir :: "'fs \<Rightarrow> path_info \<Rightarrow> bool"
  walk_files :: "'fs \<Rightarrow> path_info \<Rightarrow> path_info list"
  ls :: "'fs \<Rightarrow> path_info \<Rightarrow> error + detail list"
  get_file_hash :: "'fs \<Rightarrow> path_info \<Rightarrow> hash_info"
  copy :: "path_info \<Rightarrow> path_info \<Rightarrow> 'fs \<Rightarrow> error option \<times> 'fs"
  download_prim ::
    "(path_info \<Rightarrow> path_info \<Rightarrow> string \<Rightarrow> bool \<Rightarrow> 'fs \<Rightarrow> (path_info \<rightharpoonup> string)
        \<Rightarrow> error option \<times> (path_info \<rightharpoonup> string)) option"

text \<open>
  The world: the storage of the backend, the local files and directories, the
  fingerprint cache (\<^verbatim>\<open>self.state\<close>), the files of the cache of the tree's scheme
  and of the local cache, and the directory hashes registered by \<^verbatim>\<open>set_dir_info\<close>.
\<close>

record 'fs world =
  fs :: 'fs
  local_files :: "path_info \<rightharpoonup> string"
  local_dirs :: "path_info set"
  state :: "path_info \<rightharpoonup> hash_info"
  cache_files :: "path_info set"
  local_cache_files :: "path_info set"
  dir_infos :: "string set"

text \<open>\<^verbatim>\<open>hash_to_path_info\<close>: \<^verbatim>\<open>self.path_info / hash_[0:2] / hash_[2:]\<close>.\<close>

definition hash_to_path_info :: "path_info \<Rightarrow> string \<Rightarrow> path_info" where
  "hash_to_path_info root hash = join (join root [take 2 hash]) [drop 2 hash]"

subsection \<open>Hashing a directory\<close>

text \<open>A Python dictionary built from pairs: a later pair with the same key replaces the
  value and keeps the position of the first.\<close>

definition dict_of :: "('k \<times> 'v) list \<Rightarrow> ('k \<times> 'v) list" where
  "dict_of kvs = fold (\<lambda>kv d. AList.update (fst kv) (snd kv) d) kvs []"

text \<open>
  \<^verbatim>\<open>_calculate_hashes\<close>: \<^verbatim>\<open>executor.map\<close> gives the hashes in the order of the files,
  and the result is \<^verbatim>\<open>dict(zip(file_infos, hash_infos))\<close>.
\<close>

definition calculate_hashes :: "'fs tree \<Rightarrow> 'fs world \<Rightarrow> path_info list \<Rightarrow>
    (path_info \<times> hash_info) list" where
  "calculate_hashes t w file_infos =
     dict_of (zip file_infos (map (get_file_hash t (fs w)) file_infos))"

text \<open>
  \<^verbatim>\<open>_iter_hashes\<close> is a generator: the result is the list of the pairs it yields and
  the error that ends it, if one does. With the checksum among the detail fields each
  entry of the listing gives a pair, and an entry without the checksum raises
  \<^verbatim>\<open>KeyError\<close>. Otherwise the walk yields the files that the fingerprint cache knows
  first, and the computed hashes of the others after them.
\<close>

fun iter_details :: "string \<Rightarrow> path_info \<Rightarrow> detail list \<Rightarrow>
    (path_info \<times> hash_info) list \<times> error option" where
  "iter_details pc p [] = ([], None)"
| "iter_details pc p (d # ds) =
     (case d_checksum d of
        None \<Rightarrow> ([], Some KeyError)
      | Some c \<Rightarrow>
          (case iter_details pc p ds of (ps, e) \<Rightarrow>
             ((p\<lparr>parts := d_name d\<rparr>,
               \<lparr>hi_name = pc, hi_value = c, hi_size = d_size d\<rparr>) # ps, e)))"

definition iter_walk :: "'fs tree \<Rightarrow> 'fs world \<Rightarrow> path_info \<Rightarrow> (path_info \<times> hash_info) list" where
  "iter_walk t w p =
     (let files = walk_files t (fs w) p;
          known = concat (map (\<lambda>f. case state w f of
                                      None \<Rightarrow> []
                                    | Some h \<Rightarrow> if hi_value h \<noteq> [] then [(f, h)] else []) files);
          file_infos = filter (\<lambda>f. \<not> hi_true (state w f)) files
      in known @ calculate_hashes t w file_infos)"

definition iter_hashes :: "'fs tree \<Rightarrow> 'fs world \<Rightarrow> path_info \<Rightarrow>
    (path_info \<times> hash_info) list \<times> error option" where
  "iter_hashes t w p =
     (case PARAM_CHECKSUM t of
        None \<Rightarrow> (iter_walk t w p, None)
      | Some pc \<Rightarrow>
          if pc \<in> DETAIL_FIELDS t
          then (case ls t (fs w) p of
                  Inl e \<Rightarrow> ([], Some e)
                | Inr ds \<Rightarrow> iter_details pc p ds)
          else (iter_walk t w p, None))"

text \<open>
  Modelled from the spec: \<^verbatim>\<open>DirInfo\<close> is not in these files. The manifest is a
  "mapping from a relative path (sequence of path segments) to a ContentHash", here the
  list of its entries in the order of their first insertion; its size is the sum of
  the sizes of the members, and \<open>None\<close> when a member has no size.
\<close>

type_synonym dir_info = "(string list \<times> hash_info) list"

fun sum_sizes :: "hash_info list \<Rightarrow> int option" where
  "sum_sizes [] = Some 0"
| "sum_sizes (h # hs) =
     (case hi_size h of
        None \<Rightarrow> None
      | Some n \<Rightarrow> (case sum_sizes hs of None \<Rightarrow> None | Some s \<Rightarrow> Some (n + s)))"

definition dir_size :: "dir_info \<Rightarrow> int option" where
  "dir_size d = sum_sizes (map snd d)"

text \<open>The loop of \<^verbatim>\<open>_collect_dir\<close> over the pairs that \<^verbatim>\<open>_iter_hashes\<close> yields.\<close>

fun collect_loop :: "path_info \<Rightarrow> (path_info \<times> hash_info) list \<Rightarrow> dir_info \<Rightarrow> error + dir_info" where
  "collect_loop root [] d = Inr d"
| "collect_loop root ((fi, hi) # ps) d =
     (if DVCIGNORE_FILE = name fi then Inl (DvcIgnoreInCollectedDirError (parent fi))
      else (case relative_to fi root of
              Inl e \<Rightarrow> Inl e
            | Inr key \<Rightarrow> collect_loop root ps (AList.update key hi d)))"

definition collect_dir :: "'fs tree \<Rightarrow> 'fs world \<Rightarrow> path_info \<Rightarrow> error + dir_info" where
  "collect_dir t w p =
     (case iter_hashes t w p of (ps, stop) \<Rightarrow>
        (case collect_loop p ps [] of
           Inl e \<Rightarrow> Inl e
         | Inr d \<Rightarrow> (case stop of Some e \<Rightarrow> Inl e | None \<Rightarrow> Inr d)))"

text \<open>
  Modelled from the spec: \<^verbatim>\<open>save_dir_info\<close>. The serialized manifest is the list of
  the entries sorted by their path; the hash info returned has the digest of it with the
  directory suffix as value, and the artifact is a file of the local cache afterwards.
\<close>

definition serialize :: "dir_info \<Rightarrow> dir_info" where
  "serialize d = sort_key fst d"

definition save_dir_info :: "'fs tree \<Rightarrow> dir_info \<Rightarrow> 'fs world \<Rightarrow> hash_info \<times> 'fs world" where
  "save_dir_info t d w =
     (let v = manifest_digest t (serialize d) @ CHECKSUM_DIR_SUFFIX
      in (\<lparr>hi_name = local_checksum t, hi_value = v, hi_size = None\<rparr>,
          w\<lparr>local_cache_files :=
               insert (hash_to_path_info (local_cache_path_info t) v) (local_cache_files w)\<rparr>))"

definition get_dir_hash :: "'fs tree \<Rightarrow> 'fs world \<Rightarrow> path_info \<Rightarrow> (error + hash_info) \<times> 'fs world" where
  "get_dir_hash t w p =
     (case collect_dir t w p of
        Inl e \<Rightarrow> (Inl e, w)
      | Inr d \<Rightarrow>
          (case save_dir_info t d w of (h, w') \<Rightarrow> (Inr (h\<lparr>hi_size := dir_size d\<rparr>), w')))"

subsection \<open>The hash of a location\<close>

text \<open>
  \<^verbatim>\<open>state.save\<close> and \<^verbatim>\<open>cache.set_dir_info\<close>; the second is modelled from the spec:
  it "re-registers the directory's manifest into the cache-store's lookup path".
\<close>

definition state_save :: "path_info \<Rightarrow> hash_info \<Rightarrow> 'fs world \<Rightarrow> 'fs world" where
  "state_save p h w = w\<lparr>state := (state w)(p \<mapsto> h)\<rparr>"

definition set_dir_info :: "hash_info \<Rightarrow> 'fs world \<Rightarrow> 'fs world" where
  "set_dir_info h w = w\<lparr>dir_infos := insert (hi_value h) (dir_infos w)\<rparr>"

text \<open>
  The lines after the cached result was found missing or unusable: compute the hash,
  and save it in the fingerprint cache if the location exists. Other actors may change
  the storage while the hash is computed: \<open>env\<close> is what they do to it, so the second
  \<^verbatim>\<open>exists\<close> reads \<open>env (fs w)\<close>.
\<close>

definition compute_hash :: "'fs tree \<Rightarrow> path_info \<Rightarrow> ('fs \<Rightarrow> 'fs) \<Rightarrow> 'fs world \<Rightarrow>
    (error + hash_info option) \<times> 'fs world" where
  "compute_hash t p env w =
     (case (if isdir t (fs w) p then get_dir_hash t w p
            else (Inr (get_file_hash t (fs w) p), w)) of
        (Inl e, w1) \<Rightarrow> (Inl e, w1\<lparr>fs := env (fs w1)\<rparr>)
      | (Inr h, w1) \<Rightarrow>
          (let w2 = w1\<lparr>fs := env (fs w1)\<rparr>
           in if hi_value h \<noteq> [] \<and> exists t (fs w2) p
              then (Inr (Some h), state_save p h w2)
              else (Inr (Some h), w2)))"

text \<open>
  \<^verbatim>\<open>get_hash\<close>, for a path info (the source also takes a plain string). The
  assertions are the two results \<^verbatim>\<open>AssertionError\<close>; a location that does not exist
  gives \<^verbatim>\<open>None\<close>.
\<close>

definition get_hash :: "'fs tree \<Rightarrow> path_info \<Rightarrow> ('fs \<Rightarrow> 'fs) \<Rightarrow> 'fs world \<Rightarrow>
    (error + hash_info option) \<times> 'fs world" where
  "get_hash t p env w =
     (if pscheme p \<noteq> scheme t then (Inl AssertionError, w)
      else if \<not> exists t (fs w) p then (Inr None, w)
      else
        let hash_info =
              (case state w p of
                 None \<Rightarrow> None
               | Some c \<Rightarrow>
                   if hi_value c \<noteq> [] \<and> hi_isdir c
                      \<and> hash_to_path_info (cache_path_info t) (hi_value c) \<notin> cache_files w
                   then None else Some c)
        in (case hash_info of
              Some h \<Rightarrow>
                if hi_value h \<noteq> [] then
                  (if Some (hi_name h) \<noteq> PARAM_CHECKSUM t then (Inl AssertionError, w)
                   else if hi_isdir h then (Inr (Some h), set_dir_info h w)
                   else (Inr (Some h), w))
                else compute_hash t p env w
            | None \<Rightarrow> compute_hash t p env w))"

subsection \<open>Downloading a file\<close>

text \<open>
  \<^verbatim>\<open>makedirs(to_info.parent, exist_ok=True)\<close> creates the directory and the directories
  above it. \<^verbatim>\<open>tmp_fname(to_info)\<close> is the path of the destination with a unique
  suffix, \<^verbatim>\<open>"." + uuid() + ".tmp"\<close>, so it lies in the directory of the destination;
  the unique part is a parameter.
\<close>

definition makedirs :: "path_info \<Rightarrow> 'fs world \<Rightarrow> 'fs world" where
  "makedirs d w =
     w\<lparr>local_dirs :=
          local_dirs w \<union> set (map (\<lambda>k. d\<lparr>parts := take k (parts d)\<rparr>) [0..<Suc (length (parts d))])\<rparr>"

definition tmp_fname :: "path_info \<Rightarrow> string \<Rightarrow> path_info" where
  "tmp_fname to_info uuid =
     to_info\<lparr>parts := butlast (parts to_info) @ [name to_info @ ''.'' @ uuid @ ''.tmp'']\<rparr>"

text \<open>
  Modelled from the spec: \<^verbatim>\<open>move\<close> of \<^verbatim>\<open>dvc.utils.fs\<close> is not in these files. The
  specification has the object "atomically rename/move into place": the source file
  becomes the destination in one step, and a source that does not exist raises
  \<^verbatim>\<open>FileNotFoundError\<close>.
\<close>

definition move :: "path_info \<Rightarrow> path_info \<Rightarrow> (path_info \<rightharpoonup> string) \<Rightarrow>
    error option \<times> (path_info \<rightharpoonup> string)" where
  "move src dst files =
     (case files src of
        None \<Rightarrow> (Some FileNotFoundError, files)
      | Some c \<Rightarrow> (None, (files(src := None))(dst \<mapsto> c)))"

text \<open>
  The statements of \<^verbatim>\<open>_download_file\<close> before the last one: the directories, the
  name for the progress bar, the temporary name, and the call of \<^verbatim>\<open>_download\<close> into
  the temporary file. The world of the result is the world in which the last statement
  runs, or in which the exception of \<^verbatim>\<open>_download\<close> leaves the function.
\<close>

definition download_tmp :: "'fs tree \<Rightarrow> path_info \<Rightarrow> path_info \<Rightarrow> string option \<Rightarrow> bool \<Rightarrow>
    string \<Rightarrow> 'fs world \<Rightarrow> (error + unit) \<times> 'fs world" where
  "download_tmp t from_info to_info name_opt no_progress_bar uuid w =
     (let w1 = makedirs (parent to_info) w;
          nm = (case name_opt of None \<Rightarrow> name to_info
                | Some n \<Rightarrow> if n \<noteq> [] then n else name to_info);
          tmp_file = tmp_fname to_info uuid
      in (case download_prim t of
            None \<Rightarrow> (Inl AttributeError, w1)
          | Some dl \<Rightarrow>
              (case dl from_info tmp_file nm no_progress_bar (fs w1) (local_files w1) of
                 (Some e, files) \<Rightarrow> (Inl e, w1\<lparr>local_files := files\<rparr>)
               | (None, files) \<Rightarrow> (Inr (), w1\<lparr>local_files := files\<rparr>))))"

text \<open>\<^verbatim>\<open>_download_file\<close>: the statements above, and then
  \<^verbatim>\<open>move(tmp_file, to_info)\<close>.\<close>

definition download_file :: "'fs tree \<Rightarrow> path_info \<Rightarrow> path_info \<Rightarrow> string option \<Rightarrow> bool \<Rightarrow>
    string \<Rightarrow> 'fs world \<Rightarrow> (error + unit) \<times> 'fs world" where
  "download_file t from_info to_info name_opt no_progress_bar uuid w =
     (case download_tmp t from_info to_info name_opt no_progress_bar uuid w of
        (Inl e, w1) \<Rightarrow> (Inl e, w1)
      | (Inr u, w1) \<Rightarrow>
          (case move (tmp_fname to_info uuid) to_info (local_files w1) of
             (Some e, files) \<Rightarrow> (Inl e, w1\<lparr>local_files := files\<rparr>)
           | (None, files) \<Rightarrow> (Inr (), w1\<lparr>local_files := files\<rparr>)))"

subsection \<open>Downloading a directory: the pool of workers\<close>

text \<open>
  \<^verbatim>\<open>_download_dir\<close> submits one call of \<^verbatim>\<open>_download_file\<close> per member to a
  \<^verbatim>\<open>ThreadPoolExecutor\<close> and loops over \<^verbatim>\<open>as_completed(futures)\<close>. A future is pending,
  running, finished with the exception of its call (or none), or cancelled.

  What the threads do between two steps of the loop is not decided by the program: it
  is the sequence of events of a run. \<open>Start\<close>: a worker takes the first pending future
  of the queue, if fewer than \<open>max_workers\<close> futures are running. \<open>Finish i\<close>: the
  running call \<open>i\<close> ends; its effect on the world takes place and its result is set.
  \<open>Yield i\<close>: \<^verbatim>\<open>as_completed\<close> hands the finished future \<open>i\<close>, not handed before, to
  the loop. \<open>Cancel\<close>: the inner loop \<^verbatim>\<open>for entry in futures: entry.cancel()\<close> makes
  its next call. The workers go on between any two of these steps.
\<close>

datatype fut = PENDING | RUNNING | FINISHED "error option" | CANCELLED

datatype event = Start | Finish nat | Yield nat | Cancel

text \<open>
  The loop over \<^verbatim>\<open>as_completed\<close> is running; or the inner loop is running, with the
  exception to raise and the index of the future to cancel next; or the \<^verbatim>\<open>with\<close>
  block of the executor is being left, with the exception raised or with none:
  \<^verbatim>\<open>shutdown(wait=True)\<close> waits for the workers.
\<close>

datatype phase = Looping | Cancelling error nat | Leaving "error option"

record 'fs pool =
  futs :: "fut list"
  seen :: "nat list"
  phase :: phase
  pworld :: "'fs world"

text \<open>\<^verbatim>\<open>entry.cancel()\<close> cancels a pending future and leaves any other as it is.\<close>

fun cancel :: "fut \<Rightarrow> fut" where
  "cancel PENDING = CANCELLED"
| "cancel f = f"

fun first_pending :: "fut list \<Rightarrow> nat option" where
  "first_pending [] = None"
| "first_pending (f # rest) =
     (if f = PENDING then Some 0 else map_option Suc (first_pending rest))"

definition running :: "fut list \<Rightarrow> nat" where
  "running fl = length (filter (\<lambda>f. f = RUNNING) fl)"

text \<open>
  One event. The body of the loop is the case \<open>Yield\<close>: \<^verbatim>\<open>exc = future.exception()\<close>;
  with an exception the inner loop begins; without one the loop goes on, and it ends
  when every future has been handed over. Each \<open>Cancel\<close> is one call of
  \<^verbatim>\<open>entry.cancel()\<close>, in the order of the futures; after the last one the exception is
  raised, which leaves the loop and the block.
\<close>

definition step :: "int \<Rightarrow> (nat \<Rightarrow> 'fs world \<Rightarrow> (error + unit) \<times> 'fs world) \<Rightarrow>
    event \<Rightarrow> 'fs pool \<Rightarrow> 'fs pool" where
  "step max_workers job ev s =
     (case ev of
        Start \<Rightarrow>
          (if int (running (futs s)) < max_workers
           then (case first_pending (futs s) of
                   None \<Rightarrow> s
                 | Some i \<Rightarrow> s\<lparr>futs := (futs s)[i := RUNNING]\<rparr>)
           else s)
      | Finish i \<Rightarrow>
          (if i < length (futs s) \<and> futs s ! i = RUNNING
           then (case job i (pworld s) of
                   (Inl e, w') \<Rightarrow> s\<lparr>futs := (futs s)[i := FINISHED (Some e)], pworld := w'\<rparr>
                 | (Inr u, w') \<Rightarrow> s\<lparr>futs := (futs s)[i := FINISHED None], pworld := w'\<rparr>)
           else s)
      | Yield i \<Rightarrow>
          (if phase s = Looping \<and> i < length (futs s) \<and> i \<notin> set (seen s)
           then (case futs s ! i of
                   FINISHED (Some exc) \<Rightarrow>
                     s\<lparr>seen := seen s @ [i], phase := Cancelling exc 0\<rparr>
                 | FINISHED None \<Rightarrow>
                     s\<lparr>seen := seen s @ [i],
                       phase := (if length (seen s @ [i]) = length (futs s)
                                 then Leaving None else Looping)\<rparr>
                 | _ \<Rightarrow> s)
           else s)
      | Cancel \<Rightarrow>
          (case phase s of
             Cancelling exc k \<Rightarrow>
               (if k < length (futs s)
                then s\<lparr>futs := (futs s)[k := cancel (futs s ! k)],
                       phase := (if Suc k = length (futs s)
                                 then Leaving (Some exc) else Cancelling exc (Suc k))\<rparr>
                else s\<lparr>phase := Leaving (Some exc)\<rparr>)
           | _ \<Rightarrow> s))"

text \<open>The block has been left when no future is pending or running any more; the
  call then returns or raises.\<close>

definition pool_result :: "'fs pool \<Rightarrow> ((error + unit) \<times> 'fs world) option" where
  "pool_result s =
     (case phase s of
        Looping \<Rightarrow> None
      | Cancelling exc k \<Rightarrow> None
      | Leaving r \<Rightarrow>
          if list_ex (\<lambda>f. f = PENDING \<or> f = RUNNING) (futs s) then None
          else Some (case r of None \<Rightarrow> Inr () | Some e \<Rightarrow> Inl e, pworld s))"

text \<open>
  The destinations: \<^verbatim>\<open>to_info / info.relative_to(from_info)\<close>, a generator consumed by
  \<^verbatim>\<open>zip\<close> while the calls are submitted. The result is the pairs up to the first member
  that does not lie under \<open>from_info\<close>, and whether there was such a member.
\<close>

fun to_infos :: "path_info \<Rightarrow> path_info \<Rightarrow> path_info list \<Rightarrow> (path_info \<times> path_info) list \<times> bool" where
  "to_infos from_info to_info [] = ([], False)"
| "to_infos from_info to_info (info # infos) =
     (case relative_to info from_info of
        Inl e \<Rightarrow> ([], True)
      | Inr segs \<Rightarrow>
          (case to_infos from_info to_info infos of
             (ps, failed) \<Rightarrow> ((info, join to_info segs) # ps, failed)))"

text \<open>The state after the submissions: every future pending. The loop runs over the
  futures if all were submitted and there is one; a \<^verbatim>\<open>ValueError\<close> of
  \<^verbatim>\<open>relative_to\<close> leaves the block at once, with the submitted futures in the pool.\<close>

definition submit :: "(path_info \<times> path_info) list \<times> bool \<Rightarrow> 'fs world \<Rightarrow> 'fs pool" where
  "submit sub w =
     \<lparr> futs = replicate (length (fst sub)) PENDING,
       seen = [],
       phase = (if snd sub then Leaving (Some ValueError)
                else if fst sub = [] then Leaving None else Looping),
       pworld = w \<rparr>"

text \<open>The call of future \<open>i\<close>:
  \<^verbatim>\<open>partial(self._download_file, name=name, no_progress_bar=True)\<close>.\<close>

definition member_job :: "'fs tree \<Rightarrow> (path_info \<times> path_info) list \<Rightarrow> string option \<Rightarrow>
    (nat \<Rightarrow> string) \<Rightarrow> nat \<Rightarrow> 'fs world \<Rightarrow> (error + unit) \<times> 'fs world" where
  "member_job t pairs name_opt uuid i w =
     download_file t (fst (pairs ! i)) (snd (pairs ! i)) name_opt True (uuid i) w"

text \<open>\<^verbatim>\<open>max_workers = jobs or self.jobs\<close>; the executor refuses a number that is not
  positive with \<^verbatim>\<open>ValueError\<close>.\<close>

definition max_workers_of :: "'fs tree \<Rightarrow> int option \<Rightarrow> int" where
  "max_workers_of t njobs =
     (case njobs of None \<Rightarrow> jobs t | Some j \<Rightarrow> if j \<noteq> 0 then j else jobs t)"

text \<open>The pool of a directory download after the events of a run.\<close>

definition dir_pool :: "'fs tree \<Rightarrow> path_info \<Rightarrow> path_info \<Rightarrow> string option \<Rightarrow> int option \<Rightarrow>
    (nat \<Rightarrow> string) \<Rightarrow> event list \<Rightarrow> 'fs world \<Rightarrow> 'fs pool" where
  "dir_pool t from_info to_info name_opt njobs uuid events w =
     (let sub = to_infos from_info to_info (walk_files t (fs w) from_info)
      in fold (step (max_workers_of t njobs) (member_job t (fst sub) name_opt uuid))
           events (submit sub w))"

text \<open>\<^verbatim>\<open>_download_dir\<close>. The result is \<open>None\<close> when the events end before the call
  has returned.\<close>

definition download_dir :: "'fs tree \<Rightarrow> path_info \<Rightarrow> path_info \<Rightarrow> string option \<Rightarrow> bool \<Rightarrow>
    int option \<Rightarrow> (nat \<Rightarrow> string) \<Rightarrow> event list \<Rightarrow> 'fs world \<Rightarrow>
    ((error + unit) \<times> 'fs world) option" where
  "download_dir t from_info to_info name_opt no_progress_bar njobs uuid events w =
     (if max_workers_of t njobs \<le> 0 then Some (Inl ValueError, w)
      else pool_result (dir_pool t from_info to_info name_opt njobs uuid events w))"

subsection \<open>Download\<close>

text \<open>\<^verbatim>\<open>download\<close> returns 0 after a copy and \<^verbatim>\<open>None\<close> after a download.\<close>

definition download :: "'fs tree \<Rightarrow> path_info \<Rightarrow> path_info \<Rightarrow> string option \<Rightarrow> bool \<Rightarrow>
    int option \<Rightarrow> (nat \<Rightarrow> string) \<Rightarrow> event list \<Rightarrow> 'fs world \<Rightarrow>
    ((error + int option) \<times> 'fs world) option" where
  "download t from_info to_info name_opt no_progress_bar njobs uuid events w =
     (if download_prim t = None
      then Some (Inl (RemoteActionNotImplemented ''download'' (scheme t)), w)
      else if pscheme from_info \<noteq> scheme t then Some (Inl NotImplementedError, w)
      else if pscheme to_info = scheme t \<and> scheme t \<noteq> ''local''
      then (case copy t from_info to_info (fs w) of
              (Some e, fs') \<Rightarrow> Some (Inl e, w\<lparr>fs := fs'\<rparr>)
            | (None, fs') \<Rightarrow> Some (Inr (Some 0), w\<lparr>fs := fs'\<rparr>))
      else if pscheme to_info \<noteq> ''local'' then Some (Inl NotImplementedError, w)
      else if isdir t (fs w) from_info
      then (case download_dir t from_info to_info name_opt no_progress_bar njobs uuid events w of
              None \<Rightarrow> None
            | Some (Inl e, w') \<Rightarrow> Some (Inl e, w')
            | Some (Inr u, w') \<Rightarrow> Some (Inr None, w'))
      else (case download_file t from_info to_info name_opt no_progress_bar (uuid 0) w of
              (Inl e, w') \<Rightarrow> Some (Inl e, w')
            | (Inr u, w') \<Rightarrow> Some (Inr None, w')))"

subsection \<open>Vocabulary of the statements about hashing\<close>

text \<open>Whether \<^verbatim>\<open>_iter_hashes\<close> takes the pairs from the detailed listing.\<close>

definition uses_listing :: "'fs tree \<Rightarrow> bool" where
  "uses_listing t = (case PARAM_CHECKSUM t of None \<Rightarrow> False | Some pc \<Rightarrow> pc \<in> DETAIL_FIELDS t)"

text \<open>The member files of a directory in the order the tree enumerates them: the
  entries of the listing, or the files of the walk.\<close>

definition enumerated :: "'fs tree \<Rightarrow> 'fs world \<Rightarrow> path_info \<Rightarrow> path_info list" where
  "enumerated t w p =
     (if uses_listing t
      then (case ls t (fs w) p of Inl e \<Rightarrow> [] | Inr ds \<Rightarrow> map (\<lambda>d. p\<lparr>parts := d_name d\<rparr>) ds)
      else walk_files t (fs w) p)"

text \<open>Two results of a listing that differ in the order of the entries only.\<close>

definition same_listing :: "error + detail list \<Rightarrow> error + detail list \<Rightarrow> bool" where
  "same_listing a b =
     (case a of
        Inl e \<Rightarrow> (case b of Inl e' \<Rightarrow> e = e' | Inr ds' \<Rightarrow> False)
      | Inr ds \<Rightarrow> (case b of Inl e' \<Rightarrow> False | Inr ds' \<Rightarrow> mset ds = mset ds'))"

text \<open>The files that \<^verbatim>\<open>_iter_hashes\<close> yields, in the order it yields them.\<close>

definition yielded :: "'fs tree \<Rightarrow> 'fs world \<Rightarrow> path_info \<Rightarrow> path_info list" where
  "yielded t w p = map fst (fst (iter_hashes t w p))"

text \<open>
  A small backend for the examples: the storage is the list of its files, in the order
  in which a walk enumerates them. A file exists, and so does every path above a file;
  the hash of a file is made of its name. The class has no detailed listing and no copy,
  and its \<^verbatim>\<open>_download\<close> writes the data to the local file it is given.
\<close>

definition under :: "path_info \<Rightarrow> path_info \<Rightarrow> bool" where
  "under p f = (take (length (parts p)) (parts f) = parts p)"

definition files_tree :: "(path_info list) tree" where
  "files_tree =
     \<lparr> scheme = ''local'',
       PARAM_CHECKSUM = Some ''md5'',
       DETAIL_FIELDS = {},
       jobs = 4,
       cache_path_info = \<lparr>pscheme = ''local'', parts = [''cache'']\<rparr>,
       local_cache_path_info = \<lparr>pscheme = ''local'', parts = [''cache'']\<rparr>,
       local_checksum = ''md5'',
       manifest_digest = (\<lambda>d. concat (map (\<lambda>kh. hi_value (snd kh)) d)),
       exists = (\<lambda>files p. list_ex (under p) files),
       isdir = (\<lambda>files p. p \<notin> set files \<and> list_ex (under p) files),
       walk_files = (\<lambda>files p. filter (under p) files),
       ls = (\<lambda>files p. Inl (RemoteActionNotImplemented ''ls'' ''local'')),
       get_file_hash = (\<lambda>files f. \<lparr>hi_name = ''md5'', hi_value = ''h-'' @ name f, hi_size = Some 1\<rparr>),
       copy = (\<lambda>a b files. (Some (RemoteActionNotImplemented ''copy'' ''local''), files)),
       download_prim =
         Some (\<lambda>a tmp nm quiet files local. (None, local(tmp \<mapsto> ''data-'' @ name a))) \<rparr>"

definition local_path :: "string list \<Rightarrow> path_info" where
  "local_path segs = \<lparr>pscheme = ''local'', parts = segs\<rparr>"

definition files_world :: "path_info list \<Rightarrow> (path_info list) world" where
  "files_world files =
     \<lparr> fs = files, local_files = Map.empty, local_dirs = {}, state = Map.empty,
       cache_files = {}, local_cache_files = {}, dir_infos = {} \<rparr>"

text \<open>Abbreviations of the proofs: the entries that the pairs give relative to the
  directory, the hash that the walk finds for a file, and the pair of a listing entry.\<close>

definition rel_pairs :: "path_info \<Rightarrow> (path_info \<times> hash_info) list \<Rightarrow> dir_info" where
  "rel_pairs p ps = map (\<lambda>fh. (drop (length (parts p)) (parts (fst fh)), snd fh)) ps"

definition hash_of :: "'fs tree \<Rightarrow> 'fs world \<Rightarrow> path_info \<Rightarrow> hash_info" where
  "hash_of t w f =
     (case state w f of
        None \<Rightarrow> get_file_hash t (fs w) f
      | Some h \<Rightarrow> if hi_value h \<noteq> [] then h else get_file_hash t (fs w) f)"

definition mk_pair :: "string \<Rightarrow> path_info \<Rightarrow> detail \<Rightarrow> path_info \<times> hash_info" where
  "mk_pair pc p d =
     (p\<lparr>parts := d_name d\<rparr>,
      \<lparr>hi_name = pc, hi_value = (case d_checksum d of None \<Rightarrow> [] | Some c \<Rightarrow> c),
        hi_size = d_size d\<rparr>)"

text \<open>Two storages for the examples: two files under \<open>data\<close>, and a storage with
  an ignore marker in \<open>data/sub\<close>, enumerated first, and one in \<open>data\<close>.\<close>

definition two_files :: "path_info list" where
  "two_files = [local_path [''data'', ''a''], local_path [''data'', ''b'', ''c'']]"


text \<open>
  The fingerprint cache gives nothing usable for a location: no entry, an entry that
  is false, or a directory hash whose manifest the cache does not hold any more.
\<close>

definition cache_miss :: "'fs tree \<Rightarrow> 'fs world \<Rightarrow> path_info \<Rightarrow> bool" where
  "cache_miss t w p =
     (case state w p of
        None \<Rightarrow> True
      | Some c \<Rightarrow> hi_value c = []
          \<or> (hi_isdir c \<and> hash_to_path_info (cache_path_info t) (hi_value c) \<notin> cache_files w))"

text \<open>The world without the entry of a location in the fingerprint cache.\<close>

definition forget :: "path_info \<Rightarrow> 'fs world \<Rightarrow> 'fs world" where
  "forget p w = w\<lparr>state := (state w)(p := None)\<rparr>"

text \<open>A world of the example storage whose fingerprint cache holds a directory hash
  for \<open>data\<close>, while the cache holds no file.\<close>

definition stale_world :: "(path_info list) world" where
  "stale_world =
     (files_world two_files)
       \<lparr>state := [local_path [''data''] \<mapsto>
                    \<lparr>hi_name = ''md5'', hi_value = ''old.dir'', hi_size = Some 7\<rparr>]\<rparr>"

subsection \<open>Vocabulary of the statements about transfers\<close>

text \<open>The example backend as a remote one with scheme \<open>s3\<close>, whose copy adds the
  destination to the storage.\<close>

definition remote_tree :: "(path_info list) tree" where
  "remote_tree = files_tree\<lparr>scheme := ''s3'', copy := (\<lambda>a b files. (None, files @ [b]))\<rparr>"

definition remote_path :: "string \<Rightarrow> string list \<Rightarrow> path_info" where
  "remote_path sch segs = \<lparr>pscheme = sch, parts = segs\<rparr>"

text \<open>The unique parts of the temporary names of the examples.\<close>

definition uuids :: "nat \<Rightarrow> string" where
  "uuids i = replicate (Suc i) CHR ''u''"

text \<open>What a future can become in the steps of a run: a pending one anything, a
  running one ends, a finished or cancelled one stays as it is.\<close>

fun evolves :: "fut \<Rightarrow> fut \<Rightarrow> bool" where
  "evolves PENDING b = True"
| "evolves RUNNING b = (case b of RUNNING \<Rightarrow> True | FINISHED x \<Rightarrow> True | _ \<Rightarrow> False)"
| "evolves a b = (a = b)"




text \<open>A directory of three files, and the example backend with a \<^verbatim>\<open>_download\<close> that
  fails for the file \<open>b\<close>.\<close>

definition three_files :: "path_info list" where
  "three_files = [local_path [''data'', ''a''], local_path [''data'', ''b''],
                  local_path [''data'', ''c'']]"

definition failing_tree :: "(path_info list) tree" where
  "failing_tree =
     files_tree\<lparr>download_prim :=
       Some (\<lambda>a tmp nm quiet files local.
               if name a = ''b'' then (Some (TransferError ''b''), local)
               else (None, local(tmp \<mapsto> ''data-'' @ name a)))\<rparr>"



section \<open>Properties of the reference garbage collection\<close>

lemma gc_ref_fields:
  "stash (snd (gc_ref keep eb ea ec ri st)) = stash (snd st)"
  "stash_revs (snd (gc_ref keep eb ea ec ri st)) = stash_revs (snd st)"
  "exp_refs (snd (gc_ref keep eb ea ec ri st)) = exp_refs (snd st)"
  "brancher (snd (gc_ref keep eb ea ec ri st)) = brancher (snd st)"
  "head_rev (snd (gc_ref keep eb ea ec ri st)) = head_rev (snd st)"
  by (cases st; simp add: gc_ref_def remove_ref_def Let_def)+

lemma gc_ref_count:
  "fst (gc_ref keep eb ea ec ri st) = fst st + (if baseline_sha ri \<notin> keep then 1 else 0)"
  by (cases st) (simp add: gc_ref_def Let_def)

lemma gc_ref_refs:
  "nm \<notin> {EXEC_BRANCH, EXEC_APPLY, EXEC_CHECKPOINT} \<Longrightarrow>
   refs (snd (gc_ref keep eb ea ec ri st)) nm =
     (if baseline_sha ri \<notin> keep \<and> nm = ref_str ri then None else refs (snd st) nm)"
  by (cases st) (simp add: gc_ref_def remove_ref_def Let_def)

lemma fold_gc_ref_fields:
  "stash (snd (fold (gc_ref keep eb ea ec) ris st)) = stash (snd st)"
  "stash_revs (snd (fold (gc_ref keep eb ea ec) ris st)) = stash_revs (snd st)"
  "exp_refs (snd (fold (gc_ref keep eb ea ec) ris st)) = exp_refs (snd st)"
  "brancher (snd (fold (gc_ref keep eb ea ec) ris st)) = brancher (snd st)"
  "head_rev (snd (fold (gc_ref keep eb ea ec) ris st)) = head_rev (snd st)"
  by (induction ris arbitrary: st; simp add: gc_ref_fields)+

lemma fold_gc_ref_count:
  "fst (fold (gc_ref keep eb ea ec) ris st) =
     fst st + length (filter (\<lambda>ri. baseline_sha ri \<notin> keep) ris)"
  by (induction ris arbitrary: st) (simp_all add: gc_ref_count)

lemma fold_gc_ref_refs:
  "nm \<notin> {EXEC_BRANCH, EXEC_APPLY, EXEC_CHECKPOINT} \<Longrightarrow>
   refs (snd (fold (gc_ref keep eb ea ec) ris st)) nm =
     (if nm \<in> ref_str ` {ri \<in> set ris. baseline_sha ri \<notin> keep} then None
      else refs (snd st) nm)"
proof (induction ris arbitrary: st)
  case Nil
  then show ?case by simp
next
  case (Cons ri ris)
  show ?case
    using Cons.prems by (auto simp: Cons.IH [OF Cons.prems] gc_ref_refs)
qed

lemma stash_drop_nth:
  "m < length xs \<Longrightarrow> (take m xs @ drop (Suc m) xs) ! i = (if i < m then xs ! i else xs ! Suc i)"
  by (auto simp: nth_append min_def)

lemma keep_at_drop:
  assumes m: "m < length xs" and D: "\<forall>i\<in>D. i < m"
  shows "keep_at D (take m xs @ drop (Suc m) xs) = keep_at (insert m D) xs"
proof -
  let ?ys = "take m xs @ drop (Suc m) xs"
  obtain n where n: "length xs = Suc n" and mn: "m \<le> n"
    using m by (cases "length xs") auto
  have len: "length ?ys = n" using m n by simp
  have s1: "[0..<n] = [0..<m] @ [m..<n]"
    using mn upt_add_eq_append [of 0 m "n - m"] by simp
  have s2: "[0..<Suc n] = [0..<m] @ m # [Suc m..<Suc n]"
    using mn upt_add_eq_append [of 0 m "Suc n - m"] upt_conv_Cons [of m "Suc n"] by simp
  have a: "map (\<lambda>i. ?ys ! i) (filter (\<lambda>i. i \<notin> D) [0..<m])
         = map (\<lambda>i. xs ! i) (filter (\<lambda>i. i \<notin> insert m D) [0..<m])"
    using m by (auto simp: stash_drop_nth intro!: map_cong filter_cong)
  have f1: "filter (\<lambda>i. i \<notin> D) [m..<n] = [m..<n]"
    using D by (auto simp: filter_id_conv)
  have f2: "filter (\<lambda>i. i \<notin> insert m D) [Suc m..<Suc n] = [Suc m..<Suc n]"
    using D by (auto simp: filter_id_conv)
  have b: "map (\<lambda>i. ?ys ! i) [m..<n] = map (\<lambda>i. xs ! i) [Suc m..<Suc n]"
  proof -
    have "map (\<lambda>i. ?ys ! i) [m..<n] = map (\<lambda>i. xs ! Suc i) [m..<n]"
      using m by (auto simp: stash_drop_nth)
    also have "\<dots> = map (\<lambda>i. xs ! i) (map Suc [m..<n])" by simp
    also have "map Suc [m..<n] = [Suc m..<Suc n]"
      by (simp add: map_Suc_upt)
    finally show ?thesis .
  qed
  have "keep_at D ?ys = map (\<lambda>i. ?ys ! i) (filter (\<lambda>i. i \<notin> D) ([0..<m] @ [m..<n]))"
    unfolding keep_at_def len using s1 by simp
  also have "\<dots> = map (\<lambda>i. xs ! i) (filter (\<lambda>i. i \<notin> insert m D) ([0..<m] @ m # [Suc m..<Suc n]))"
    using a b f1 f2 by simp
  also have "\<dots> = keep_at (insert m D) xs"
    unfolding keep_at_def n using s2 by simp
  finally show ?thesis .
qed

lemma drop_all_desc:
  "sorted is \<Longrightarrow> distinct is \<Longrightarrow> \<forall>i\<in>set is. i < length xs \<Longrightarrow>
   drop_all (rev is) xs = Some (keep_at (set is) xs)"
proof (induction "is" arbitrary: xs rule: rev_induct)
  case Nil
  show ?case by (simp add: keep_at_def map_nth)
next
  case (snoc m js)
  have m: "m < length xs" using snoc.prems by simp
  have "\<forall>i\<in>set js. i \<le> m" using snoc.prems(1) by (simp add: sorted_append)
  moreover have "m \<notin> set js" using snoc.prems(2) by simp
  ultimately have lt: "\<forall>i\<in>set js. i < m"
    by (metis le_neq_implies_less)
  let ?ys = "take m xs @ drop (Suc m) xs"
  have "drop_all (rev (js @ [m])) xs = drop_all (rev js) ?ys"
    using m by (simp add: stash_drop_def)
  also have "\<dots> = Some (keep_at (set js) ?ys)"
  proof (rule snoc.IH)
    show "sorted js" using snoc.prems(1) by (simp add: sorted_append)
    show "distinct js" using snoc.prems(2) by simp
    show "\<forall>i\<in>set js. i < length ?ys" using lt m by auto
  qed
  also have "keep_at (set js) ?ys = keep_at (insert m (set js)) xs"
    by (rule keep_at_drop [OF m lt])
  finally show ?case by simp
qed

lemmas gc_eval = gc_def keep_revs_def gc_ref_def get_ref_def remove_ref_def delete_stashes_def
  stash_drop_def EXEC_BRANCH_def EXEC_APPLY_def EXEC_CHECKPOINT_def Let_def

text \<open>
  Claim C10. When the computed set of revisions to keep is empty, \<^verbatim>\<open>gc\<close> returns 0 and
  the repository is as it was: no reference is removed, no queued entry is dropped and
  no pointer of the running experiment is cleared.
\<close>

theorem gc_empty_keep:
  "keep_revs r all_branches all_tags all_commits workspace = {} \<Longrightarrow>
   gc r all_branches all_tags all_commits workspace queued = Some (0, r)"
  by (simp add: gc_def)

text \<open>The scenario without \<open>all_branches\<close>: the brancher gives no revision and the
  workspace is not kept, so nothing is removed.\<close>

theorem gc_empty_keep_witness:
  "keep_revs gc_scenario False True True False = {} \<and>
   gc gc_scenario False True True False False = Some (0, gc_scenario)"
proof -
  have k: "keep_revs gc_scenario False True True False = {}"
    by (simp add: keep_revs_def gc_scenario_def)
  show ?thesis using k gc_empty_keep [OF k, of False] by simp
qed

text \<open>
  Claim C8, as amended. When the set of revisions to keep is not empty (and the positions
  of the queued entries are distinct positions of the stash), \<^verbatim>\<open>gc\<close> returns the number
  of experiment references whose baseline is not kept plus the number of queued entries
  it drops. Every reference other than the three pointers of the running experiment is
  removed when it is an experiment reference whose baseline is not kept, and is as before
  otherwise. Without \<open>queued\<close> every queued entry is dropped; with \<open>queued\<close> only the
  entries whose baseline is not kept are dropped, and the others stay in their order.
\<close>

theorem gc_removes:
  assumes keep: "keep = keep_revs r all_branches all_tags all_commits workspace"
    and ne: "keep \<noteq> {}"
    and dist: "distinct (map (\<lambda>p. index (snd p)) (stash_revs r))"
    and bound: "\<forall>p\<in>set (stash_revs r). index (snd p) < length (stash r)"
  shows "\<exists>r'. gc r all_branches all_tags all_commits workspace queued =
            Some (length (filter (\<lambda>ri. baseline_sha ri \<notin> keep) (exp_refs r))
                  + length (filter (\<lambda>p. \<not> queued \<or> baseline_rev (snd p) \<notin> keep) (stash_revs r)), r')
          \<and> (\<forall>nm. nm \<notin> {EXEC_BRANCH, EXEC_APPLY, EXEC_CHECKPOINT} \<longrightarrow>
                refs r' nm =
                  (if nm \<in> set (map ref_str (filter (\<lambda>ri. baseline_sha ri \<notin> keep) (exp_refs r)))
                   then None else refs r nm))
          \<and> stash r' =
              keep_at (set (map (\<lambda>p. index (snd p))
                         (filter (\<lambda>p. \<not> queued \<or> baseline_rev (snd p) \<notin> keep) (stash_revs r))))
                (stash r)"
proof -
  define eb where "eb = get_ref r EXEC_BRANCH False"
  define ea where "ea = get_ref r EXEC_APPLY True"
  define ec where "ec = get_ref r EXEC_CHECKPOINT True"
  define st where "st = fold (gc_ref keep eb ea ec) (exp_refs r) (0, r)"
  define ds where "ds = delete_stashes keep queued (stash_revs r)"
  have st_stash: "stash (snd st) = stash r" and st_revs: "stash_revs (snd st) = stash_revs r"
    by (simp_all add: st_def fold_gc_ref_fields)
  have st_count: "fst st = length (filter (\<lambda>ri. baseline_sha ri \<notin> keep) (exp_refs r))"
    by (simp add: st_def fold_gc_ref_count)
  have ds_set: "set ds = set (map (\<lambda>p. index (snd p))
      (filter (\<lambda>p. \<not> queued \<or> baseline_rev (snd p) \<notin> keep) (stash_revs r)))"
    by (simp add: ds_def delete_stashes_def)
  have ds_len: "length ds =
      length (filter (\<lambda>p. \<not> queued \<or> baseline_rev (snd p) \<notin> keep) (stash_revs r))"
    by (simp add: ds_def delete_stashes_def)
  have ds_dist: "distinct ds"
    unfolding ds_def delete_stashes_def using dist by (simp add: distinct_map_filter)
  have ds_bound: "\<forall>i\<in>set (sort ds). i < length (stash r)"
    using bound by (auto simp: ds_def delete_stashes_def)
  have drop: "drop_all (rev (sort ds)) (stash r) = Some (keep_at (set ds) (stash r))"
    using drop_all_desc [of "sort ds" "stash r"] ds_dist ds_bound by simp
  let ?r' = "(snd st)\<lparr>stash := keep_at (set ds) (stash r)\<rparr>"
  have res: "gc r all_branches all_tags all_commits workspace queued
      = Some (fst st + length ds, ?r')"
    using ne drop st_stash st_revs
    unfolding st_def ds_def eb_def ea_def ec_def
    by (simp add: gc_def keep [symmetric] Let_def)
  have r_refs: "\<forall>nm. nm \<notin> {EXEC_BRANCH, EXEC_APPLY, EXEC_CHECKPOINT} \<longrightarrow>
      refs ?r' nm =
        (if nm \<in> set (map ref_str (filter (\<lambda>ri. baseline_sha ri \<notin> keep) (exp_refs r)))
         then None else refs r nm)"
    using fold_gc_ref_refs [of _ keep eb ea ec "exp_refs r" "(0, r)"]
    by (simp add: st_def)
  show ?thesis
    apply (rule exI [of _ ?r'])
    using res r_refs by (simp add: st_count ds_len ds_set)
qed

text \<open>The scenario of the specification, with \<open>queued\<close>: \<open>exp2\<close> and the queued entry
  go, \<open>exp1\<close> stays, the result is 2.\<close>

theorem gc_removes_witness:
  "keep_revs gc_scenario True False False False = {''rev1''} \<and>
   (\<exists>r'. gc gc_scenario True False False False True = Some (2, r')
      \<and> refs r' ''refs/exps/re/v2/exp2'' = None
      \<and> refs r' ''refs/exps/re/v1/exp1'' = Some (Sha ''c1'')
      \<and> stash r' = [])"
proof -
  have k: "{''rev1''} = keep_revs gc_scenario True False False False"
    by (simp add: keep_revs_def gc_scenario_def)
  have d: "distinct (map (\<lambda>p. index (snd p)) (stash_revs gc_scenario))"
    by (simp add: gc_scenario_def)
  have b: "\<forall>p\<in>set (stash_revs gc_scenario). index (snd p) < length (stash gc_scenario)"
    by (simp add: gc_scenario_def)
  obtain r' where
    1: "gc gc_scenario True False False False True =
          Some (length (filter (\<lambda>ri. baseline_sha ri \<notin> {''rev1''}) (exp_refs gc_scenario))
                + length (filter (\<lambda>p. \<not> True \<or> baseline_rev (snd p) \<notin> {''rev1''})
                    (stash_revs gc_scenario)), r')"
    and 2: "\<forall>nm. nm \<notin> {EXEC_BRANCH, EXEC_APPLY, EXEC_CHECKPOINT} \<longrightarrow>
                refs r' nm =
                  (if nm \<in> set (map ref_str (filter (\<lambda>ri. baseline_sha ri \<notin> {''rev1''}) (exp_refs gc_scenario)))
                   then None else refs gc_scenario nm)"
    and 3: "stash r' =
              keep_at (set (map (\<lambda>p. index (snd p))
                         (filter (\<lambda>p. \<not> True \<or> baseline_rev (snd p) \<notin> {''rev1''}) (stash_revs gc_scenario))))
                (stash gc_scenario)"
    using gc_removes [OF k _ d b, of True] by blast
  have n: "gc gc_scenario True False False False True = Some (2, r')"
    using 1 by (simp add: gc_scenario_def)
  have e2: "refs r' ''refs/exps/re/v2/exp2'' = None"
    using 2 [rule_format, of "''refs/exps/re/v2/exp2''"]
    by (simp add: gc_scenario_def EXEC_BRANCH_def EXEC_APPLY_def EXEC_CHECKPOINT_def)
  have e1: "refs r' ''refs/exps/re/v1/exp1'' = Some (Sha ''c1'')"
    using 2 [rule_format, of "''refs/exps/re/v1/exp1''"]
    by (simp add: gc_scenario_def EXEC_BRANCH_def EXEC_APPLY_def EXEC_CHECKPOINT_def)
  have s: "stash r' = []"
    using 3 by (simp add: gc_scenario_def keep_at_def)
  show ?thesis using k n e1 e2 s by auto
qed

text \<open>
  Claim C8 as it is written fails twice. Called without \<open>queued\<close> (the default, nothing
  requested), \<^verbatim>\<open>gc\<close> drops both queued entries, also the one whose baseline \<open>rev1\<close>
  is kept. And when the set of revisions to keep is empty, the reference \<open>exp2\<close>, whose
  baseline is not in it, is not removed.
\<close>

theorem gc_queue_counterexample:
  "(\<exists>r'. gc gc_scenario_queue True False False False False = Some (3, r')
      \<and> keep_revs gc_scenario_queue True False False False = {''rev1''}
      \<and> map (\<lambda>p. baseline_rev (snd p)) (stash_revs gc_scenario_queue) = [''rev2'', ''rev1'']
      \<and> stash gc_scenario_queue = [''s0'', ''s1'']
      \<and> stash r' = [])
   \<and> keep_revs gc_scenario False False False False = {}
   \<and> map baseline_sha (exp_refs gc_scenario) = [''rev1'', ''rev2'']
   \<and> gc gc_scenario False False False False False = Some (0, gc_scenario)"
  by (simp add: gc_eval gc_scenario_def gc_scenario_queue_def)

text \<open>
  Claim C9 at a failing input. The execution branch is the symbolic name of \<open>exp1\<close>,
  whose baseline is kept: \<open>exp1\<close> is still there after \<^verbatim>\<open>gc\<close>, and the pointer
  \<open>EXEC_BRANCH\<close> has been removed all the same, because \<open>exp2\<close> was removed.
\<close>

theorem gc_exec_branch_cleared:
  "\<exists>r'. gc gc_scenario True False False False True = Some (2, r')
     \<and> get_ref gc_scenario EXEC_BRANCH False = Some ''refs/exps/re/v1/exp1''
     \<and> refs r' ''refs/exps/re/v1/exp1'' = refs gc_scenario ''refs/exps/re/v1/exp1''
     \<and> refs r' ''refs/exps/re/v1/exp1'' = Some (Sha ''c1'')
     \<and> refs r' EXEC_BRANCH = None"
  by (simp add: gc_eval gc_scenario_def)

section \<open>Properties of the hash of a directory and of a location\<close>

subsection \<open>Association lists\<close>

lemma map_of_fold_update:
  "map_of (fold (\<lambda>kv d. AList.update (fst kv) (snd kv) d) kvs d) = map_of (rev kvs @ d)"
proof (induction kvs arbitrary: d)
  case Nil
  show ?case by simp
next
  case (Cons kv kvs)
  show ?case
    by (simp add: Cons.IH update_conv' map_add_def fun_eq_iff split: option.splits)
qed

lemma distinct_fold_update:
  "distinct (map fst d) \<Longrightarrow>
   distinct (map fst (fold (\<lambda>kv d. AList.update (fst kv) (snd kv) d) kvs d))"
  by (induction kvs arbitrary: d) (simp_all add: distinct_update)

lemma map_of_functional:
  assumes "\<forall>k v v'. (k, v) \<in> set kvs \<longrightarrow> (k, v') \<in> set kvs \<longrightarrow> v = v'"
  shows "map_of kvs k = Some v \<longleftrightarrow> (k, v) \<in> set kvs"
proof
  assume "map_of kvs k = Some v" then show "(k, v) \<in> set kvs" by (rule map_of_SomeD)
next
  assume m: "(k, v) \<in> set kvs"
  then obtain v' where v': "map_of kvs k = Some v'"
    by (metis weak_map_of_SomeI)
  then have "(k, v') \<in> set kvs" by (rule map_of_SomeD)
  with m assms have "v = v'" by blast
  with v' show "map_of kvs k = Some v" by simp
qed

lemma map_of_functional_cong:
  assumes f: "\<forall>k v v'. (k, v) \<in> set kvs \<longrightarrow> (k, v') \<in> set kvs \<longrightarrow> v = v'"
    and s: "set kvs' = set kvs"
  shows "map_of kvs' = map_of kvs"
proof (rule ext)
  fix k
  have f': "\<forall>k v v'. (k, v) \<in> set kvs' \<longrightarrow> (k, v') \<in> set kvs' \<longrightarrow> v = v'"
    using f s by simp
  show "map_of kvs' k = map_of kvs k"
  proof (cases "map_of kvs k")
    case None
    have "\<And>v. (k, v) \<notin> set kvs"
      using None map_of_functional [OF f, of k] by simp
    then have "\<And>v. map_of kvs' k \<noteq> Some v"
      using map_of_functional [OF f', of k] s by simp
    then have "map_of kvs' k = None" by (cases "map_of kvs' k") auto
    with None show ?thesis by simp
  next
    case (Some v)
    then have "(k, v) \<in> set kvs'" using map_of_functional [OF f, of k v] s by simp
    then have "map_of kvs' k = Some v" using map_of_functional [OF f', of k v] by simp
    with Some show ?thesis by simp
  qed
qed

lemma sum_sizes_char:
  "sum_sizes hs =
     (if \<forall>h\<in>set hs. hi_size h \<noteq> None then Some (sum_list (map (\<lambda>h. the (hi_size h)) hs))
      else None)"
  by (induction hs) (auto split: option.splits)

lemma sum_sizes_mset:
  assumes "mset hs = mset hs'"
  shows "sum_sizes hs = sum_sizes hs'"
proof -
  have s: "set hs = set hs'" using assms by (rule mset_eq_setD)
  have "sum_mset (image_mset (\<lambda>h. the (hi_size h)) (mset hs))
      = sum_mset (image_mset (\<lambda>h. the (hi_size h)) (mset hs'))"
    using assms by simp
  then have "sum_list (map (\<lambda>h. the (hi_size h)) hs) = sum_list (map (\<lambda>h. the (hi_size h)) hs')"
    by (metis mset_map sum_mset_sum_list)
  then show ?thesis by (simp add: sum_sizes_char s)
qed

lemma alist_canonical:
  assumes da: "distinct (map fst a)" and db: "distinct (map fst b)"
    and m: "map_of a = map_of b"
  shows "serialize a = serialize b" and "dir_size a = dir_size b"
proof -
  have s: "set a = set b" using da db m by (rule map_of_inject_set [THEN iffD1])
  have "distinct a" "distinct b" using da db by (simp_all add: distinct_map)
  then have ms: "mset a = mset b" using s by (simp add: set_eq_iff_mset_eq_distinct)
  have inj: "inj_on fst (set (sort_key fst a) \<union> set (sort_key fst b))"
    using da s by (simp add: distinct_map)
  show "serialize a = serialize b"
    unfolding serialize_def
    by (rule map_sorted_distinct_set_unique [OF inj]) (use da db s in \<open>simp_all add: distinct_map\<close>)
  show "dir_size a = dir_size b"
    unfolding dir_size_def by (rule sum_sizes_mset) (use ms in \<open>metis mset_map\<close>)
qed

subsection \<open>The loop of collect_dir\<close>

lemma relative_to_Inr:
  "relative_to f p \<noteq> Inl ValueError \<Longrightarrow>
   relative_to f p = Inr (drop (length (parts p)) (parts f))
   \<and> pscheme f = pscheme p \<and> parts f = parts p @ drop (length (parts p)) (parts f)"
  by (auto simp: relative_to_def split: if_splits) (metis append_take_drop_id)

lemma relative_to_inj:
  assumes "relative_to f p \<noteq> Inl ValueError" "relative_to g p \<noteq> Inl ValueError"
    and "drop (length (parts p)) (parts f) = drop (length (parts p)) (parts g)"
  shows "f = g"
proof -
  have "pscheme f = pscheme g" "parts f = parts g"
    using relative_to_Inr [OF assms(1)] relative_to_Inr [OF assms(2)] assms(3) by simp_all
  then show ?thesis by simp
qed

lemma collect_loop_ok:
  assumes "\<forall>fh\<in>set ps. name (fst fh) \<noteq> DVCIGNORE_FILE \<and> relative_to (fst fh) p \<noteq> Inl ValueError"
  shows "collect_loop p ps d =
           Inr (fold (\<lambda>kv d. AList.update (fst kv) (snd kv) d) (rel_pairs p ps) d)"
  using assms
proof (induction ps arbitrary: d)
  case Nil
  show ?case by (simp add: rel_pairs_def)
next
  case (Cons fh ps)
  obtain f h where fh: "fh = (f, h)" by (cases fh)
  have r: "relative_to f p = Inr (drop (length (parts p)) (parts f))"
    using Cons.prems relative_to_Inr [of f p] by (simp add: fh)
  have n: "DVCIGNORE_FILE \<noteq> name f" using Cons.prems by (auto simp: fh)
  have "collect_loop p ps (AList.update (drop (length (parts p)) (parts f)) h d) =
      Inr (fold (\<lambda>kv d. AList.update (fst kv) (snd kv) d) (rel_pairs p ps)
        (AList.update (drop (length (parts p)) (parts f)) h d))"
    by (rule Cons.IH) (use Cons.prems in simp)
  then show ?case using r n by (simp add: fh rel_pairs_def)
qed


subsection \<open>What iter_hashes yields\<close>

lemma set_update_graph:
  "\<forall>kv\<in>set d. snd kv = g (fst kv) \<Longrightarrow>
   set (AList.update k (g k) d) = insert (k, g k) (set d)"
  by (induction d) (auto simp: AList.update.simps)

lemma set_dict_of_graph_aux:
  "\<forall>kv\<in>set d. snd kv = g (fst kv) \<Longrightarrow>
   set (fold (\<lambda>kv d. AList.update (fst kv) (snd kv) d) (zip ks (map g ks)) d)
     = (\<lambda>k. (k, g k)) ` set ks \<union> set d"
proof (induction ks arbitrary: d)
  case Nil
  show ?case by simp
next
  case (Cons k ks)
  have s: "set (AList.update k (g k) d) = insert (k, g k) (set d)"
    by (rule set_update_graph [OF Cons.prems])
  have "\<forall>kv\<in>set (AList.update k (g k) d). snd kv = g (fst kv)"
    using Cons.prems by (auto simp: s)
  from Cons.IH [OF this] show ?case by (simp add: s)
qed

lemma set_dict_of_graph: "set (dict_of (zip ks (map g ks))) = (\<lambda>k. (k, g k)) ` set ks"
  using set_dict_of_graph_aux [of "[]" g ks] by (simp add: dict_of_def)

lemma set_iter_walk:
  "set (iter_walk t w p) = (\<lambda>f. (f, hash_of t w f)) ` set (walk_files t (fs w) p)"
  by (auto simp: iter_walk_def Let_def calculate_hashes_def set_dict_of_graph hash_of_def
      image_iff split: option.splits if_splits)


subsection \<open>Order of the pairs\<close>

lemma dict_pairs_cong:
  assumes ok: "\<forall>fh\<in>set ps. name (fst fh) \<noteq> DVCIGNORE_FILE \<and> relative_to (fst fh) p \<noteq> Inl ValueError"
    and func: "\<forall>fh\<in>set ps. \<forall>fh'\<in>set ps. fst fh = fst fh' \<longrightarrow> snd fh = snd fh'"
    and s: "set ps' = set ps"
  shows "\<exists>d d'. collect_loop p ps [] = Inr d \<and> collect_loop p ps' [] = Inr d'
           \<and> distinct (map fst d) \<and> distinct (map fst d') \<and> map_of d' = map_of d"
proof -
  let ?upd = "\<lambda>kv d. AList.update (fst kv) (snd kv) d"
  let ?d = "fold ?upd (rel_pairs p ps) []" and ?d' = "fold ?upd (rel_pairs p ps') []"
  have ok': "\<forall>fh\<in>set ps'. name (fst fh) \<noteq> DVCIGNORE_FILE \<and> relative_to (fst fh) p \<noteq> Inl ValueError"
    using ok s by simp
  have c: "collect_loop p ps [] = Inr ?d" by (rule collect_loop_ok [OF ok])
  have c': "collect_loop p ps' [] = Inr ?d'" by (rule collect_loop_ok [OF ok'])
  have dd: "distinct (map fst ?d)" "distinct (map fst ?d')"
    by (simp_all add: distinct_fold_update)
  have fn: "\<forall>k v v'. (k, v) \<in> set (rev (rel_pairs p ps)) \<longrightarrow>
      (k, v') \<in> set (rev (rel_pairs p ps)) \<longrightarrow> v = v'"
  proof (intro allI impI)
    fix k v v'
    assume "(k, v) \<in> set (rev (rel_pairs p ps))" "(k, v') \<in> set (rev (rel_pairs p ps))"
    then obtain fh fh' where a: "fh \<in> set ps" "k = drop (length (parts p)) (parts (fst fh))" "v = snd fh"
      and b: "fh' \<in> set ps" "k = drop (length (parts p)) (parts (fst fh'))" "v' = snd fh'"
      by (auto simp: rel_pairs_def)
    have "fst fh = fst fh'"
      by (rule relative_to_inj [of _ p]) (use a b ok in auto)
    then show "v = v'" using func a b by blast
  qed
  have ss: "set (rev (rel_pairs p ps')) = set (rev (rel_pairs p ps))"
    using s by (simp add: rel_pairs_def)
  have "map_of ?d' = map_of (rev (rel_pairs p ps'))" by (simp add: map_of_fold_update)
  also have "\<dots> = map_of (rev (rel_pairs p ps))" by (rule map_of_functional_cong [OF fn ss])
  also have "\<dots> = map_of ?d" by (simp add: map_of_fold_update)
  finally show ?thesis using c c' dd by blast
qed

lemma iter_details_all:
  "\<forall>d\<in>set ds. d_checksum d \<noteq> None \<Longrightarrow> iter_details pc p ds = (map (mk_pair pc p) ds, None)"
  by (induction ds) (auto simp: mk_pair_def)

lemma iter_details_missing:
  "\<exists>d\<in>set ds. d_checksum d = None \<Longrightarrow>
   \<exists>ps. iter_details pc p ds = (ps, Some KeyError)
      \<and> fst ` set ps \<subseteq> (\<lambda>d. p\<lparr>parts := d_name d\<rparr>) ` set ds"
proof (induction ds)
  case Nil
  then show ?case by simp
next
  case (Cons d ds)
  show ?case
  proof (cases "d_checksum d")
    case None
    then show ?thesis by simp
  next
    case (Some c)
    then have "\<exists>d\<in>set ds. d_checksum d = None" using Cons.prems by auto
    from Cons.IH [OF this] obtain ps where
      "iter_details pc p ds = (ps, Some KeyError)"
      "fst ` set ps \<subseteq> (\<lambda>d. p\<lparr>parts := d_name d\<rparr>) ` set ds" by blast
    then show ?thesis using Some by auto
  qed
qed


lemma hash_of_update [simp]:
  "hash_of (t\<lparr>walk_files := a, ls := b\<rparr>) w f = hash_of t w f"
  by (simp add: hash_of_def split: option.splits)

lemma collect_dir_perm:
  assumes walk: "mset (walk' (fs w) p) = mset (walk_files t (fs w) p)"
    and lst: "same_listing (ls' (fs w) p) (ls t (fs w) p)"
    and nomark: "\<forall>f\<in>set (enumerated t w p). name f \<noteq> DVCIGNORE_FILE"
    and under: "\<forall>f\<in>set (enumerated t w p). relative_to f p \<noteq> Inl ValueError"
    and dist: "uses_listing t \<longrightarrow> distinct (enumerated t w p)"
  shows "(\<exists>e. collect_dir (t\<lparr>walk_files := walk', ls := ls'\<rparr>) w p = Inl e \<and> collect_dir t w p = Inl e)
       \<or> (\<exists>d d'. collect_dir t w p = Inr d \<and> collect_dir (t\<lparr>walk_files := walk', ls := ls'\<rparr>) w p = Inr d'
             \<and> distinct (map fst d) \<and> distinct (map fst d') \<and> map_of d' = map_of d)"
proof (cases "uses_listing t")
  case False
  let ?t' = "t\<lparr>walk_files := walk', ls := ls'\<rparr>"
  have en: "enumerated t w p = walk_files t (fs w) p" using False by (simp add: enumerated_def)
  have ih: "iter_hashes t w p = (iter_walk t w p, None)"
    using False by (auto simp: iter_hashes_def uses_listing_def split: option.splits)
  have ih': "iter_hashes ?t' w p = (iter_walk ?t' w p, None)"
    using False by (auto simp: iter_hashes_def uses_listing_def split: option.splits)
  have sw: "set (walk' (fs w) p) = set (walk_files t (fs w) p)"
    using walk by (rule mset_eq_setD)
  have s: "set (iter_walk ?t' w p) = set (iter_walk t w p)"
    by (simp add: set_iter_walk sw)
  have ok: "\<forall>fh\<in>set (iter_walk t w p).
      name (fst fh) \<noteq> DVCIGNORE_FILE \<and> relative_to (fst fh) p \<noteq> Inl ValueError"
    using nomark under by (auto simp: set_iter_walk en)
  have func: "\<forall>fh\<in>set (iter_walk t w p). \<forall>fh'\<in>set (iter_walk t w p).
      fst fh = fst fh' \<longrightarrow> snd fh = snd fh'"
    by (auto simp: set_iter_walk)
  from dict_pairs_cong [OF ok func s] show ?thesis
    by (auto simp: collect_dir_def ih ih')
next
  case True
  let ?t' = "t\<lparr>walk_files := walk', ls := ls'\<rparr>"
  obtain pc where pc: "PARAM_CHECKSUM t = Some pc" "pc \<in> DETAIL_FIELDS t"
    using True by (auto simp: uses_listing_def split: option.splits)
  show ?thesis
  proof (cases "ls t (fs w) p")
    case (Inl e)
    then have "ls' (fs w) p = Inl e"
      using lst by (auto simp: same_listing_def split: sum.splits)
    then show ?thesis using Inl pc by (simp add: collect_dir_def iter_hashes_def)
  next
    case (Inr ds)
    then obtain ds' where ds': "ls' (fs w) p = Inr ds'" "mset ds' = mset ds"
      using lst by (auto simp: same_listing_def split: sum.splits)
    have sds: "set ds' = set ds" using ds'(2) by (rule mset_eq_setD)
    have en: "enumerated t w p = map (\<lambda>d. p\<lparr>parts := d_name d\<rparr>) ds"
      using True Inr by (simp add: enumerated_def)
    have ih: "iter_hashes t w p = iter_details pc p ds"
      using pc Inr by (simp add: iter_hashes_def)
    have ih': "iter_hashes ?t' w p = iter_details pc p ds'"
      using pc ds'(1) by (simp add: iter_hashes_def)
    show ?thesis
    proof (cases "\<forall>d\<in>set ds. d_checksum d \<noteq> None")
      case False
      then have m: "\<exists>d\<in>set ds. d_checksum d = None" by simp
      then have m': "\<exists>d\<in>set ds'. d_checksum d = None" using sds by simp
      from iter_details_missing [OF m, of pc p] obtain ps where
        ps: "iter_details pc p ds = (ps, Some KeyError)"
            "fst ` set ps \<subseteq> (\<lambda>d. p\<lparr>parts := d_name d\<rparr>) ` set ds" by blast
      from iter_details_missing [OF m', of pc p] obtain ps' where
        ps': "iter_details pc p ds' = (ps', Some KeyError)"
             "fst ` set ps' \<subseteq> (\<lambda>d. p\<lparr>parts := d_name d\<rparr>) ` set ds'" by blast
      have "\<forall>fh\<in>set ps. name (fst fh) \<noteq> DVCIGNORE_FILE \<and> relative_to (fst fh) p \<noteq> Inl ValueError"
        using ps(2) nomark under by (auto simp: en)
      from collect_loop_ok [OF this, of "[]"] have c: "collect_dir t w p = Inl KeyError"
        by (simp add: collect_dir_def ih ps(1))
      have "\<forall>fh\<in>set ps'. name (fst fh) \<noteq> DVCIGNORE_FILE \<and> relative_to (fst fh) p \<noteq> Inl ValueError"
        using ps'(2) nomark under sds by (auto simp: en)
      from collect_loop_ok [OF this, of "[]"] have "collect_dir ?t' w p = Inl KeyError"
        by (simp add: collect_dir_def ih' ps'(1))
      with c show ?thesis by simp
    next
      case all: True
      then have all': "\<forall>d\<in>set ds'. d_checksum d \<noteq> None" using sds by simp
      have i: "iter_hashes t w p = (map (mk_pair pc p) ds, None)"
        using ih iter_details_all [OF all] by simp
      have i': "iter_hashes ?t' w p = (map (mk_pair pc p) ds', None)"
        using ih' iter_details_all [OF all'] by simp
      have s: "set (map (mk_pair pc p) ds') = set (map (mk_pair pc p) ds)"
        using sds by simp
      have ok: "\<forall>fh\<in>set (map (mk_pair pc p) ds).
          name (fst fh) \<noteq> DVCIGNORE_FILE \<and> relative_to (fst fh) p \<noteq> Inl ValueError"
        using nomark under by (auto simp: en mk_pair_def)
      have inj: "inj_on (\<lambda>d. p\<lparr>parts := d_name d\<rparr>) (set ds)"
        using dist True by (simp add: en distinct_map)
      have func: "\<forall>fh\<in>set (map (mk_pair pc p) ds). \<forall>fh'\<in>set (map (mk_pair pc p) ds).
          fst fh = fst fh' \<longrightarrow> snd fh = snd fh'"
      proof (intro ballI impI)
        fix fh fh'
        assume a: "fh \<in> set (map (mk_pair pc p) ds)" "fh' \<in> set (map (mk_pair pc p) ds)"
          and e: "fst fh = fst fh'"
        then obtain d d' where d: "d \<in> set ds" "fh = mk_pair pc p d"
          and d': "d' \<in> set ds" "fh' = mk_pair pc p d'" by auto
        have "p\<lparr>parts := d_name d\<rparr> = p\<lparr>parts := d_name d'\<rparr>"
          using e d d' by (simp add: mk_pair_def)
        then have "d = d'" using inj d(1) d'(1) by (auto dest: inj_onD)
        then show "snd fh = snd fh'" using d d' by simp
      qed
      from dict_pairs_cong [OF ok func s] show ?thesis
        by (auto simp: collect_dir_def i i')
    qed
  qed
qed

text \<open>
  Claim C3. Take a directory whose enumerated members lie under it and none of which
  is named as the ignore marker (and, where the pairs come from the detailed listing, a
  listing that names no file twice). Whatever permutation of the walk and of the listing
  the tree enumerates, \<^verbatim>\<open>get_dir_hash\<close> gives the same result: the same hash info
  with the same size (or the same failure), the same cache afterwards, and the same
  mapping from relative paths to hashes as manifest.
\<close>

theorem get_dir_hash_permutation:
  assumes walk: "mset (walk' (fs w) p) = mset (walk_files t (fs w) p)"
    and lst: "same_listing (ls' (fs w) p) (ls t (fs w) p)"
    and nomark: "\<forall>f\<in>set (enumerated t w p). name f \<noteq> DVCIGNORE_FILE"
    and under: "\<forall>f\<in>set (enumerated t w p). relative_to f p \<noteq> Inl ValueError"
    and dist: "uses_listing t \<longrightarrow> distinct (enumerated t w p)"
  shows "get_dir_hash (t\<lparr>walk_files := walk', ls := ls'\<rparr>) w p = get_dir_hash t w p
       \<and> map_sum id map_of (collect_dir (t\<lparr>walk_files := walk', ls := ls'\<rparr>) w p)
           = map_sum id map_of (collect_dir t w p)"
proof -
  let ?t' = "t\<lparr>walk_files := walk', ls := ls'\<rparr>"
  from collect_dir_perm [where walk' = walk' and ls' = ls' and t = t and w = w and p = p, OF assms]
  consider
    (err) e where "collect_dir ?t' w p = Inl e" "collect_dir t w p = Inl e"
  | (ok) d d' where "collect_dir t w p = Inr d" "collect_dir ?t' w p = Inr d'"
      "distinct (map fst d)" "distinct (map fst d')" "map_of d' = map_of d"
    by blast
  then show ?thesis
  proof cases
    case err
    then show ?thesis by (simp add: get_dir_hash_def)
  next
    case ok
    have "serialize d' = serialize d" "dir_size d' = dir_size d"
      using alist_canonical [OF ok(4) ok(3) ok(5)] by simp_all
    then show ?thesis using ok by (simp add: get_dir_hash_def save_dir_info_def Let_def)
  qed
qed

lemmas hash_eval = get_dir_hash_def collect_dir_def iter_hashes_def iter_walk_def
  calculate_hashes_def dict_of_def save_dir_info_def serialize_def dir_size_def
  files_tree_def files_world_def local_path_def under_def name_def parent_def join_def
  relative_to_def hash_to_path_info_def DVCIGNORE_FILE_def CHECKSUM_DIR_SUFFIX_def
  uses_listing_def enumerated_def same_listing_def yielded_def Let_def


text \<open>The walk of two files under \<open>data\<close>, and the walk in the reverse order: the
  directory hash is the same, with size 2.\<close>

theorem get_dir_hash_permutation_witness:
  "mset (rev (walk_files files_tree two_files (local_path [''data''])))
     = mset (walk_files files_tree two_files (local_path [''data'']))
   \<and> walk_files files_tree two_files (local_path [''data'']) = two_files
   \<and> get_dir_hash (files_tree\<lparr>walk_files := \<lambda>files p. rev (walk_files files_tree files p),
                                ls := ls files_tree\<rparr>)
        (files_world two_files) (local_path [''data''])
       = get_dir_hash files_tree (files_world two_files) (local_path [''data''])
   \<and> fst (get_dir_hash files_tree (files_world two_files) (local_path [''data'']))
       = Inr \<lparr>hi_name = ''md5'', hi_value = ''h-ah-c.dir'', hi_size = Some 2\<rparr>"
proof -
  let ?w = "files_world two_files" and ?p = "local_path [''data'']"
  have 1: "mset ((\<lambda>files p. rev (walk_files files_tree files p)) (fs ?w) ?p)
      = mset (walk_files files_tree (fs ?w) ?p)" by simp
  have 2: "same_listing (ls files_tree (fs ?w) ?p) (ls files_tree (fs ?w) ?p)"
    by (simp add: same_listing_def files_tree_def)
  have 3: "\<forall>f\<in>set (enumerated files_tree ?w ?p). name f \<noteq> DVCIGNORE_FILE"
    by (simp add: hash_eval two_files_def)
  have 4: "\<forall>f\<in>set (enumerated files_tree ?w ?p). relative_to f ?p \<noteq> Inl ValueError"
    by (simp add: hash_eval two_files_def)
  have 5: "uses_listing files_tree \<longrightarrow> distinct (enumerated files_tree ?w ?p)"
    by (simp add: hash_eval)
  have v: "fst (get_dir_hash files_tree ?w ?p)
      = Inr \<lparr>hi_name = ''md5'', hi_value = ''h-ah-c.dir'', hi_size = Some 2\<rparr>"
    by (simp add: hash_eval two_files_def AList.update.simps less_eq_list_code)
  have e: "walk_files files_tree two_files ?p = two_files"
    by (simp add: hash_eval two_files_def)
  show ?thesis
    using get_dir_hash_permutation
      [where walk' = "\<lambda>files p. rev (walk_files files_tree files p)" and ls' = "ls files_tree"
         and t = files_tree and w = ?w and p = ?p, OF 1 2 3 4 5] v e
    by simp
qed

subsection \<open>The ignore marker\<close>













subsection \<open>The hash of a location\<close>

lemma hi_isdir_value: "hi_isdir c \<Longrightarrow> hi_value c \<noteq> []"
  by (auto simp: hi_isdir_def is_dir_hash_def)

lemma get_hash_miss:
  assumes "pscheme p = scheme t" "exists t (fs w) p" "cache_miss t w p"
  shows "get_hash t p env w = compute_hash t p env w"
  using assms
  by (auto simp: get_hash_def cache_miss_def Let_def hi_isdir_value split: option.splits)

lemma get_dir_hash_world:
  "get_dir_hash t w p = (r, w') \<Longrightarrow> state w' = state w \<and> fs w' = fs w"
  by (auto simp: get_dir_hash_def save_dir_info_def Let_def split: sum.splits)

lemma iter_walk_forget:
  assumes "p \<notin> set (walk_files t (fs w) q)"
  shows "iter_walk t (forget p w) q = iter_walk t w q"
proof -
  have a: "\<forall>f\<in>set (walk_files t (fs w) q). state (forget p w) f = state w f"
    using assms by (auto simp: forget_def)
  have f: "fs (forget p w) = fs w" by (simp add: forget_def)
  have 1: "map (\<lambda>f. case state (forget p w) f of None \<Rightarrow> []
               | Some h \<Rightarrow> if hi_value h \<noteq> [] then [(f, h)] else []) (walk_files t (fs w) q)
         = map (\<lambda>f. case state w f of None \<Rightarrow> []
               | Some h \<Rightarrow> if hi_value h \<noteq> [] then [(f, h)] else []) (walk_files t (fs w) q)"
    using a by (auto intro!: map_cong)
  have 2: "filter (\<lambda>f. \<not> hi_true (state (forget p w) f)) (walk_files t (fs w) q)
         = filter (\<lambda>f. \<not> hi_true (state w f)) (walk_files t (fs w) q)"
    using a by (auto intro!: filter_cong)
  show ?thesis
    unfolding iter_walk_def Let_def calculate_hashes_def f 1 2 ..
qed

lemma get_dir_hash_forget:
  assumes "p \<notin> set (walk_files t (fs w) q)"
  shows "get_dir_hash t (forget p w) q =
           (fst (get_dir_hash t w q), forget p (snd (get_dir_hash t w q)))"
proof -
  have "iter_hashes t (forget p w) q = iter_hashes t w q"
    using iter_walk_forget [OF assms]
    by (simp add: iter_hashes_def forget_def split: option.splits)
  then have c: "collect_dir t (forget p w) q = collect_dir t w q"
    by (simp add: collect_dir_def)
  show ?thesis
    unfolding get_dir_hash_def c
    by (cases "collect_dir t w q") (simp_all add: save_dir_info_def Let_def forget_def)
qed

lemma compute_hash_forget:
  assumes "p \<notin> set (walk_files t (fs w) p)"
  shows "fst (compute_hash t p env (forget p w)) = fst (compute_hash t p env w)"
proof (cases "isdir t (fs w) p")
  case True
  obtain r w1 where g: "get_dir_hash t w p = (r, w1)" by (cases "get_dir_hash t w p")
  have g': "get_dir_hash t (forget p w) p = (r, forget p w1)"
    using get_dir_hash_forget [OF assms] g by simp
  show ?thesis
    using True g g'
    by (cases r) (simp_all add: compute_hash_def forget_def Let_def)
next
  case False
  then show ?thesis by (simp add: compute_hash_def forget_def Let_def)
qed

text \<open>
  Claim C5. The location exists and the fingerprint cache holds a directory hash for
  it, but the cache of the tree does not hold the file of that hash. Then \<^verbatim>\<open>get_hash\<close>
  does what it does on a miss: it computes the hash again (\<open>compute_hash\<close>, the lines
  after the cached result) instead of returning the cached one, and its result is the
  result in the world where the fingerprint cache has no entry for the location (the
  location not being one of the files of its own walk).
\<close>

theorem get_hash_stale_dir:
  assumes sch: "pscheme p = scheme t"
    and ex: "exists t (fs w) p"
    and st: "state w p = Some c"
    and dir: "hi_isdir c"
    and lost: "hash_to_path_info (cache_path_info t) (hi_value c) \<notin> cache_files w"
  shows "get_hash t p env w = compute_hash t p env w
       \<and> (p \<notin> set (walk_files t (fs w) p) \<longrightarrow>
            fst (get_hash t p env w) = fst (get_hash t p env (forget p w)))"
proof -
  have m: "cache_miss t w p" using st dir lost by (simp add: cache_miss_def)
  have m': "cache_miss t (forget p w) p" by (simp add: cache_miss_def forget_def)
  have ex': "exists t (fs (forget p w)) p" using ex by (simp add: forget_def)
  have 1: "get_hash t p env w = compute_hash t p env w"
    by (rule get_hash_miss [OF sch ex m])
  have 2: "get_hash t p env (forget p w) = compute_hash t p env (forget p w)"
    by (rule get_hash_miss [OF sch ex' m'])
  show ?thesis using 1 2 compute_hash_forget [of p t w env] by simp
qed

text \<open>
  Claim C6. On the miss path, when \<^verbatim>\<open>get_hash\<close> returns a computed hash, the
  fingerprint cache afterwards is the one before with the new entry for the location if
  the location exists after the computation (and the hash is true), and it is the one
  before, unchanged, if the location does not exist any more.
\<close>

theorem get_hash_saves_if_exists:
  assumes sch: "pscheme p = scheme t"
    and ex: "exists t (fs w) p"
    and miss: "cache_miss t w p"
    and res: "fst (get_hash t p env w) = Inr (Some h)"
  shows "state (snd (get_hash t p env w)) =
           (if hi_value h \<noteq> [] \<and> exists t (env (fs w)) p then (state w)(p \<mapsto> h) else state w)
       \<and> fs (snd (get_hash t p env w)) = env (fs w)"
proof -
  have g: "get_hash t p env w = compute_hash t p env w"
    by (rule get_hash_miss [OF sch ex miss])
  obtain r w1 where i: "(if isdir t (fs w) p then get_dir_hash t w p
      else (Inr (get_file_hash t (fs w) p), w)) = (r, w1)"
    by (cases "if isdir t (fs w) p then get_dir_hash t w p else (Inr (get_file_hash t (fs w) p), w)")
  have w1: "state w1 = state w \<and> fs w1 = fs w"
    using i get_dir_hash_world [of t w p r w1] by (auto split: if_splits)
  have r: "r = Inr h"
    using res unfolding g compute_hash_def i
    by (cases r) (auto simp: Let_def split: if_splits)
  show ?thesis
    unfolding g compute_hash_def i r using w1
    by (simp add: Let_def state_save_def)
qed


lemmas get_hash_eval = compute_hash_def cache_miss_def state_save_def
  set_dir_info_def hi_isdir_def is_dir_hash_def endswith_def stale_world_def forget_def
  two_files_def

text \<open>The stale world: the hash of \<open>data\<close> is computed again and saved.\<close>

theorem get_hash_stale_dir_witness:
  "state stale_world (local_path [''data''])
     = Some \<lparr>hi_name = ''md5'', hi_value = ''old.dir'', hi_size = Some 7\<rparr>
   \<and> hi_isdir \<lparr>hi_name = ''md5'', hi_value = ''old.dir'', hi_size = Some 7\<rparr>
   \<and> cache_files stale_world = {}
   \<and> fst (get_hash files_tree (local_path [''data'']) id stale_world)
       = Inr (Some \<lparr>hi_name = ''md5'', hi_value = ''h-ah-c.dir'', hi_size = Some 2\<rparr>)
   \<and> state (snd (get_hash files_tree (local_path [''data'']) id stale_world)) (local_path [''data''])
       = Some \<lparr>hi_name = ''md5'', hi_value = ''h-ah-c.dir'', hi_size = Some 2\<rparr>"
proof -
  let ?p = "local_path [''data'']"
  let ?c = "\<lparr>hi_name = ''md5'', hi_value = ''old.dir'', hi_size = Some 7\<rparr>"
  have 1: "pscheme ?p = scheme files_tree" by (simp add: hash_eval)
  have 2: "exists files_tree (fs stale_world) ?p" by (simp add: hash_eval get_hash_eval)
  have 3: "state stale_world ?p = Some ?c" by (simp add: hash_eval get_hash_eval)
  have 4: "hi_isdir ?c" by (simp add: hash_eval get_hash_eval)
  have 5: "hash_to_path_info (cache_path_info files_tree) (hi_value ?c) \<notin> cache_files stale_world"
    by (simp add: hash_eval get_hash_eval)
  have 6: "cache_files stale_world = {}" by (simp add: hash_eval get_hash_eval)
  have g: "get_hash files_tree ?p id stale_world = compute_hash files_tree ?p id stale_world"
    using get_hash_stale_dir [OF 1 2 3 4 5, of id] by simp
  have v: "fst (compute_hash files_tree ?p id stale_world)
      = Inr (Some \<lparr>hi_name = ''md5'', hi_value = ''h-ah-c.dir'', hi_size = Some 2\<rparr>)"
    by (simp add: hash_eval get_hash_eval AList.update.simps less_eq_list_code)
  have s: "state (snd (compute_hash files_tree ?p id stale_world)) ?p
      = Some \<lparr>hi_name = ''md5'', hi_value = ''h-ah-c.dir'', hi_size = Some 2\<rparr>"
    by (simp add: hash_eval get_hash_eval AList.update.simps less_eq_list_code)
  show ?thesis using 3 4 6 g v s by simp
qed

text \<open>The file \<open>data/a\<close> is hashed while every file is deleted: the hash is returned
  and nothing is saved. When nothing is deleted, the hash is saved.\<close>

theorem get_hash_saves_if_exists_witness:
  "exists files_tree (fs (files_world two_files)) (local_path [''data'', ''a''])
   \<and> \<not> exists files_tree [] (local_path [''data'', ''a''])
   \<and> fst (get_hash files_tree (local_path [''data'', ''a'']) (\<lambda>files. []) (files_world two_files))
       = Inr (Some \<lparr>hi_name = ''md5'', hi_value = ''h-a'', hi_size = Some 1\<rparr>)
   \<and> state (snd (get_hash files_tree (local_path [''data'', ''a'']) (\<lambda>files. [])
                    (files_world two_files))) = Map.empty
   \<and> state (snd (get_hash files_tree (local_path [''data'', ''a'']) id (files_world two_files)))
       = [local_path [''data'', ''a''] \<mapsto> \<lparr>hi_name = ''md5'', hi_value = ''h-a'', hi_size = Some 1\<rparr>]"
proof -
  let ?p = "local_path [''data'', ''a'']" and ?w = "files_world two_files"
  let ?h = "\<lparr>hi_name = ''md5'', hi_value = ''h-a'', hi_size = Some 1\<rparr>"
  have 1: "pscheme ?p = scheme files_tree" by (simp add: hash_eval)
  have 2: "exists files_tree (fs ?w) ?p" by (simp add: hash_eval get_hash_eval)
  have 3: "cache_miss files_tree ?w ?p" by (simp add: hash_eval get_hash_eval)
  have n: "\<not> exists files_tree [] ?p" by (simp add: hash_eval)
  have g: "get_hash files_tree ?p env ?w = compute_hash files_tree ?p env ?w" for env
    by (simp add: get_hash_def hash_eval get_hash_eval)
  have 4: "fst (get_hash files_tree ?p (\<lambda>files. []) ?w) = Inr (Some ?h)"
    unfolding g by (simp add: hash_eval get_hash_eval)
  have 5: "fst (get_hash files_tree ?p id ?w) = Inr (Some ?h)"
    unfolding g by (simp add: hash_eval get_hash_eval)
  have a: "state (snd (get_hash files_tree ?p (\<lambda>files. []) ?w)) = Map.empty"
    using get_hash_saves_if_exists [OF 1 2 3 4] n by (simp add: hash_eval)
  have b: "state (snd (get_hash files_tree ?p id ?w)) = [?p \<mapsto> ?h]"
    using get_hash_saves_if_exists [OF 1 2 3 5] 2 by (simp add: hash_eval)
  show ?thesis using 2 n 4 a b by simp
qed

section \<open>Properties of the transfers\<close>

text \<open>
  Claim C7, as amended. On a tree that has \<^verbatim>\<open>_download\<close>: a source of another scheme
  than the tree's fails with \<^verbatim>\<open>NotImplementedError\<close> and the world is as before,
  whatever the destination is. With a source of the tree's scheme, a destination of the
  tree's scheme, not \<open>local\<close>, makes \<^verbatim>\<open>download\<close> call the copy of the backend and
  return 0 (or raise what the copy raises); a destination of any other scheme than
  \<open>local\<close> fails with \<^verbatim>\<open>NotImplementedError\<close>, the world as before.
\<close>

theorem download_scheme:
  assumes "download_prim t \<noteq> None"
  shows "(pscheme from_info \<noteq> scheme t \<longrightarrow>
            download t from_info to_info name_opt no_progress_bar njobs uuid events w
              = Some (Inl NotImplementedError, w))
       \<and> (pscheme from_info = scheme t \<and> pscheme to_info = scheme t \<and> scheme t \<noteq> ''local'' \<longrightarrow>
            download t from_info to_info name_opt no_progress_bar njobs uuid events w
              = (case copy t from_info to_info (fs w) of
                   (Some e, fs') \<Rightarrow> Some (Inl e, w\<lparr>fs := fs'\<rparr>)
                 | (None, fs') \<Rightarrow> Some (Inr (Some 0), w\<lparr>fs := fs'\<rparr>)))
       \<and> (pscheme from_info = scheme t \<and> pscheme to_info \<noteq> scheme t \<and> pscheme to_info \<noteq> ''local'' \<longrightarrow>
            download t from_info to_info name_opt no_progress_bar njobs uuid events w
              = Some (Inl NotImplementedError, w))"
  using assms by (auto simp: download_def)

text \<open>The tree of scheme \<open>s3\<close>: a source of scheme \<open>gs\<close> fails; from \<open>s3\<close> to
  \<open>s3\<close> the copy is called, 0 is returned and no local file is written; from \<open>s3\<close>
  to \<open>gs\<close> fails.\<close>

theorem download_scheme_witness:
  "download_prim remote_tree \<noteq> None
   \<and> download remote_tree (remote_path ''gs'' [''data'', ''a'']) (local_path [''out'', ''a''])
        None True None uuids [] (files_world two_files)
       = Some (Inl NotImplementedError, files_world two_files)
   \<and> fst (the (download remote_tree (remote_path ''s3'' [''data'', ''a''])
        (remote_path ''s3'' [''copy'', ''a'']) None True None uuids [] (files_world two_files)))
       = Inr (Some 0)
   \<and> local_files (snd (the (download remote_tree (remote_path ''s3'' [''data'', ''a''])
        (remote_path ''s3'' [''copy'', ''a'']) None True None uuids [] (files_world two_files))))
       = Map.empty
   \<and> download remote_tree (remote_path ''s3'' [''data'', ''a'']) (remote_path ''gs'' [''out'', ''a''])
        None True None uuids [] (files_world two_files)
       = Some (Inl NotImplementedError, files_world two_files)"
proof -
  have p: "download_prim remote_tree \<noteq> None"
    by (simp add: remote_tree_def files_tree_def)
  note d = download_scheme [OF p, of _ _ None True None uuids "[]" "files_world two_files"]
  have 1: "download remote_tree (remote_path ''gs'' [''data'', ''a'']) (local_path [''out'', ''a''])
        None True None uuids [] (files_world two_files)
       = Some (Inl NotImplementedError, files_world two_files)"
    using d [of "remote_path ''gs'' [''data'', ''a'']" "local_path [''out'', ''a'']"]
    by (simp add: remote_tree_def remote_path_def files_tree_def)
  have 2: "download remote_tree (remote_path ''s3'' [''data'', ''a''])
        (remote_path ''s3'' [''copy'', ''a'']) None True None uuids [] (files_world two_files)
       = Some (Inr (Some 0), (files_world two_files)\<lparr>fs := two_files @ [remote_path ''s3'' [''copy'', ''a'']]\<rparr>)"
    using d [of "remote_path ''s3'' [''data'', ''a'']" "remote_path ''s3'' [''copy'', ''a'']"]
    by (simp add: remote_tree_def remote_path_def files_tree_def files_world_def)
  have 3: "download remote_tree (remote_path ''s3'' [''data'', ''a'']) (remote_path ''gs'' [''out'', ''a''])
        None True None uuids [] (files_world two_files)
       = Some (Inl NotImplementedError, files_world two_files)"
    using d [of "remote_path ''s3'' [''data'', ''a'']" "remote_path ''gs'' [''out'', ''a'']"]
    by (simp add: remote_tree_def remote_path_def files_tree_def)
  have e: "local_files (files_world two_files) = Map.empty"
    by (simp add: files_world_def)
  show ?thesis using p 1 3 e by (simp add: 2)
qed

text \<open>
  Claim C7 as it is written lets the destination rule be an exception to the failure of
  a source of another scheme. With a source of scheme \<open>gs\<close> and a destination of the
  scheme \<open>s3\<close> of the tree, not \<open>local\<close>, the copy of the backend would succeed, and
  \<^verbatim>\<open>download\<close> raises \<^verbatim>\<open>NotImplementedError\<close> without calling it.
\<close>

theorem download_scheme_counterexample:
  "download_prim remote_tree \<noteq> None
   \<and> pscheme (remote_path ''gs'' [''data'', ''a'']) \<noteq> scheme remote_tree
   \<and> pscheme (remote_path ''s3'' [''copy'', ''a'']) = scheme remote_tree
   \<and> scheme remote_tree \<noteq> ''local''
   \<and> copy remote_tree (remote_path ''gs'' [''data'', ''a'']) (remote_path ''s3'' [''copy'', ''a''])
        two_files = (None, two_files @ [remote_path ''s3'' [''copy'', ''a'']])
   \<and> download remote_tree (remote_path ''gs'' [''data'', ''a'']) (remote_path ''s3'' [''copy'', ''a''])
        None True None uuids [] (files_world two_files)
       = Some (Inl NotImplementedError, files_world two_files)"
  by (simp add: download_def remote_tree_def remote_path_def files_tree_def)

subsection \<open>Downloading a file\<close>

lemma tmp_fname_parent: "parent (tmp_fname to_info uuid) = parent to_info"
  by (simp add: tmp_fname_def parent_def)

lemma tmp_fname_neq: "tmp_fname to_info uuid \<noteq> to_info"
proof
  assume e: "tmp_fname to_info uuid = to_info"
  then have p: "butlast (parts to_info) @ [name to_info @ ''.'' @ uuid @ ''.tmp''] = parts to_info"
    by (simp add: tmp_fname_def) (metis path_info.select_convs(2) path_info.surjective
        path_info.update_convs(2))
  then have ne: "parts to_info \<noteq> []" by auto
  then have "last (parts to_info) = name to_info @ ''.'' @ uuid @ ''.tmp''"
    using p by (metis last_snoc)
  then have "length (last (parts to_info)) = length (name to_info @ ''.'' @ uuid @ ''.tmp'')"
    by simp
  then show False using ne by (simp add: name_def)
qed

lemma download_tmp_dest:
  assumes prim: "download_prim t = Some dl"
    and frame: "\<forall>a p nm q s files x. x \<noteq> p \<longrightarrow> snd (dl a p nm q s files) x = files x"
  shows "local_files (snd (download_tmp t from_info to_info name_opt no_progress_bar uuid w)) to_info
           = local_files w to_info"
proof -
  let ?w1 = "makedirs (parent to_info) w"
  let ?nm = "case name_opt of None \<Rightarrow> name to_info
             | Some n \<Rightarrow> if n \<noteq> [] then n else name to_info"
  let ?tmp = "tmp_fname to_info uuid"
  obtain r files where d: "dl from_info ?tmp ?nm no_progress_bar (fs ?w1) (local_files ?w1) = (r, files)"
    by (cases "dl from_info ?tmp ?nm no_progress_bar (fs ?w1) (local_files ?w1)")
  have "files to_info = local_files ?w1 to_info"
    using frame [rule_format, of to_info ?tmp from_info ?nm no_progress_bar "fs ?w1" "local_files ?w1"]
      d tmp_fname_neq [of to_info uuid] by simp
  then have f: "files to_info = local_files w to_info" by (simp add: makedirs_def)
  show ?thesis
    using d f prim by (cases r) (simp_all add: download_tmp_def Let_def)
qed

text \<open>
  Claim C2. On a backend whose \<^verbatim>\<open>_download\<close> writes no other local file than the one
  it is given: the temporary file lies in the directory of the destination and is not
  the destination; in the world in which the move runs, or in which the exception of the
  transfer leaves the function, the destination is as it was before the call; after a
  call that fails, the destination is as it was before the call; and after a call that
  succeeds, the transfer had succeeded, the destination holds what the transfer left in
  the temporary file, whole, and the temporary file is gone.
\<close>

theorem download_file_atomic:
  assumes prim: "download_prim t = Some dl"
    and frame: "\<forall>a p nm q s files x. x \<noteq> p \<longrightarrow> snd (dl a p nm q s files) x = files x"
  shows
    "(let tmp = tmp_fname to_info uuid;
          mid = download_tmp t from_info to_info name_opt no_progress_bar uuid w;
          fin = download_file t from_info to_info name_opt no_progress_bar uuid w
      in parent tmp = parent to_info \<and> tmp \<noteq> to_info
       \<and> local_files (snd mid) to_info = local_files w to_info
       \<and> (fst fin \<noteq> Inr () \<longrightarrow> local_files (snd fin) to_info = local_files w to_info)
       \<and> (fst fin = Inr () \<longrightarrow>
            fst mid = Inr ()
            \<and> local_files (snd mid) tmp \<noteq> None
            \<and> local_files (snd fin) to_info = local_files (snd mid) tmp
            \<and> local_files (snd fin) tmp = None))"
proof -
  let ?tmp = "tmp_fname to_info uuid"
  let ?mid = "download_tmp t from_info to_info name_opt no_progress_bar uuid w"
  let ?fin = "download_file t from_info to_info name_opt no_progress_bar uuid w"
  have d: "local_files (snd ?mid) to_info = local_files w to_info"
    by (rule download_tmp_dest [OF prim frame])
  have n: "?tmp \<noteq> to_info" by (rule tmp_fname_neq)
  obtain r w1 where m: "?mid = (r, w1)" by (cases ?mid)
  have d1: "local_files w1 to_info = local_files w to_info" using d m by simp
  have fail: "fst ?fin \<noteq> Inr () \<longrightarrow> local_files (snd ?fin) to_info = local_files w to_info"
    using m d1 by (cases r; cases "local_files w1 ?tmp") (simp_all add: download_file_def move_def)
  have ok: "fst ?fin = Inr () \<longrightarrow>
      fst ?mid = Inr () \<and> local_files (snd ?mid) ?tmp \<noteq> None
      \<and> local_files (snd ?fin) to_info = local_files (snd ?mid) ?tmp
      \<and> local_files (snd ?fin) ?tmp = None"
    using m n by (cases r; cases "local_files w1 ?tmp") (simp_all add: download_file_def move_def)
  show ?thesis
    unfolding Let_def using tmp_fname_parent n d fail ok by blast
qed

text \<open>
  The example backend downloads \<open>data/a\<close> to \<open>out/a\<close>: the destination holds the
  data and nothing else is left. The backend that fails for \<open>b\<close> leaves the destination
  \<open>out/b\<close>, which held an older object, as it was.
\<close>

theorem download_file_atomic_witness:
  "download_prim files_tree \<noteq> None
   \<and> fst (download_file files_tree (local_path [''data'', ''a'']) (local_path [''out'', ''a''])
            None True ''u1'' (files_world two_files)) = Inr ()
   \<and> local_files (snd (download_file files_tree (local_path [''data'', ''a''])
            (local_path [''out'', ''a'']) None True ''u1'' (files_world two_files)))
       = [local_path [''out'', ''a''] \<mapsto> ''data-a'']
   \<and> fst (download_file failing_tree (local_path [''data'', ''b'']) (local_path [''out'', ''b''])
            None True ''u1''
            ((files_world three_files)\<lparr>local_files := [local_path [''out'', ''b''] \<mapsto> ''old'']\<rparr>))
       = Inl (TransferError ''b'')
   \<and> local_files (snd (download_file failing_tree (local_path [''data'', ''b''])
            (local_path [''out'', ''b'']) None True ''u1''
            ((files_world three_files)\<lparr>local_files := [local_path [''out'', ''b''] \<mapsto> ''old'']\<rparr>)))
          (local_path [''out'', ''b''])
       = Some ''old''"
proof -
  let ?dl = "\<lambda>a tmp nm quiet (files :: path_info list) (local :: path_info \<rightharpoonup> string).
      (None :: error option, local(tmp \<mapsto> ''data-'' @ name a))"
  let ?dlb = "\<lambda>a tmp nm quiet (files :: path_info list) (local :: path_info \<rightharpoonup> string).
      if name a = ''b'' then (Some (TransferError ''b''), local)
      else (None, local(tmp \<mapsto> ''data-'' @ name a))"
  let ?wb = "(files_world three_files)\<lparr>local_files := [local_path [''out'', ''b''] \<mapsto> ''old'']\<rparr>"
  have p: "download_prim files_tree = Some ?dl" by (simp add: files_tree_def)
  have pb: "download_prim failing_tree = Some ?dlb" by (simp add: failing_tree_def)
  have f: "\<forall>a p nm q s files x. x \<noteq> p \<longrightarrow> snd (?dl a p nm q s files) x = files x" by simp
  have fb: "\<forall>a p nm q s files x. x \<noteq> p \<longrightarrow> snd (?dlb a p nm q s files) x = files x" by simp
  have ok: "fst (download_file files_tree (local_path [''data'', ''a'']) (local_path [''out'', ''a''])
            None True ''u1'' (files_world two_files)) = Inr ()"
    by (simp add: download_file_def download_tmp_def move_def makedirs_def tmp_fname_def
        files_tree_def files_world_def local_path_def name_def parent_def)
  have okf: "local_files (snd (download_file files_tree (local_path [''data'', ''a''])
            (local_path [''out'', ''a'']) None True ''u1'' (files_world two_files)))
       = [local_path [''out'', ''a''] \<mapsto> ''data-a'']"
    by (simp add: download_file_def download_tmp_def move_def makedirs_def tmp_fname_def
        files_tree_def files_world_def local_path_def name_def parent_def fun_upd_twist)
  have bad: "fst (download_file failing_tree (local_path [''data'', ''b'']) (local_path [''out'', ''b''])
            None True ''u1'' ?wb) = Inl (TransferError ''b'')"
    by (simp add: download_file_def download_tmp_def move_def makedirs_def tmp_fname_def
        failing_tree_def files_tree_def files_world_def local_path_def name_def parent_def)
  have "local_files (snd (download_file failing_tree (local_path [''data'', ''b''])
            (local_path [''out'', ''b'']) None True ''u1'' ?wb)) (local_path [''out'', ''b''])
      = local_files ?wb (local_path [''out'', ''b''])"
    using download_file_atomic [OF pb fb, of "local_path [''out'', ''b'']" "''u1''"
        "local_path [''data'', ''b'']" None True ?wb, unfolded Let_def] bad
    by simp
  then have badf: "local_files (snd (download_file failing_tree (local_path [''data'', ''b''])
            (local_path [''out'', ''b'']) None True ''u1'' ?wb)) (local_path [''out'', ''b''])
      = Some ''old''"
    by simp
  show ?thesis using p ok okf bad badf by simp
qed

subsection \<open>Steps of the pool\<close>


lemma first_pending_None: "(\<forall>i<length l. l ! i \<noteq> PENDING) \<Longrightarrow> first_pending l = None"
proof (induction l)
  case Nil
  show ?case by simp
next
  case (Cons f l)
  have "f \<noteq> PENDING" using Cons.prems by (metis length_greater_0_conv list.simps(3) nth_Cons_0)
  moreover have "\<forall>i<length l. l ! i \<noteq> PENDING"
    using Cons.prems by (metis Suc_less_eq length_Cons nth_Cons_Suc)
  ultimately show ?case using Cons.IH by simp
qed

lemma step_length [simp]: "length (futs (step mw job ev s)) = length (futs s)"
  by (auto simp: step_def
      split: event.splits option.splits prod.splits sum.splits fut.splits phase.splits)






lemma evolves_refl [simp]: "evolves a a"
  by (cases a) simp_all



lemma evolves_cancelled: "evolves CANCELLED b \<Longrightarrow> b = CANCELLED"
  by simp




subsection \<open>The invariants of the loops\<close>










subsection \<open>The end of the calls that run\<close>





subsection \<open>Downloading a directory\<close>







subsection \<open>Runs of the examples\<close>
















end
